theory Spec2Isabelle
  imports Main "HOL-Library.AList"
begin

section \<open>Outcomes of a call\<close>

text \<open>
  The exceptions the modelled code of \<^verbatim>\<open>s3transfer/utils.py\<close> can raise.
  \<^verbatim>\<open>SlidingWindowSemaphore.release\<close> raises \<^verbatim>\<open>ValueError\<close> at two places, with two
  messages; they are kept apart here. \<^verbatim>\<open>KeyError\<close> is what a failed dictionary
  subscript raises. The last four are raised by the file objects of Python's \<^verbatim>\<open>io\<close>.
\<close>

datatype error =
    NoResourcesAvailable
  | ValueError_unknown_tag
  | ValueError_unknown_sequence_number
  | KeyError
  | ValueError_closed_file
  | ValueError_read_length
  | OSError_invalid_argument
  | IOError_no_such_file

text \<open>
  A call on the semaphore returns a value, raises, or (a blocking \<^verbatim>\<open>acquire\<close> on an
  exhausted semaphore) suspends its caller on the condition variable. A call on a file
  returns or raises: its result is a sum, with the error on the left.
\<close>

datatype 'a outcome = Returned 'a | Raised error | Blocked

section \<open>SlidingWindowSemaphore\<close>

text \<open>
  The three dictionaries are association lists in insertion order, read with
  \<^const>\<open>map_of\<close> and written with \<^const>\<open>AList.update\<close> (which replaces the value of a
  present key in place and appends an absent one, as a Python \<^verbatim>\<open>dict\<close> does).
  The lock and the condition variable are not part of the state.
\<close>

record 'tag sliding_window_semaphore =
  count :: int
  tag_sequences :: "('tag \<times> int) list"
  lowest_sequence :: "('tag \<times> int) list"
  pending_release :: "('tag \<times> int list) list"

definition SlidingWindowSemaphore :: "int \<Rightarrow> 'tag sliding_window_semaphore" where
  "SlidingWindowSemaphore c =
     \<lparr>count = c, tag_sequences = [], lowest_sequence = [], pending_release = []\<rparr>"

definition current_count :: "'tag sliding_window_semaphore \<Rightarrow> int" where
  "current_count s = count s"

text \<open>
  \<^verbatim>\<open>self._tag_sequences\<close> is a \<^verbatim>\<open>defaultdict(int)\<close>: subscripting an absent key stores 0
  under it and returns 0.
\<close>

definition defaultdict_getitem :: "('k \<times> int) list \<Rightarrow> 'k \<Rightarrow> int \<times> ('k \<times> int) list" where
  "defaultdict_getitem d k =
     (case map_of d k of
        Some v \<Rightarrow> (v, d)
      | None \<Rightarrow> (0, AList.update k 0 d))"

text \<open>\<^verbatim>\<open>d.get(k, [])\<close>\<close>

definition dict_get :: "('k \<times> 'v list) list \<Rightarrow> 'k \<Rightarrow> 'v list" where
  "dict_get d k = (case map_of d k of Some v \<Rightarrow> v | None \<Rightarrow> [])"

definition acquire ::
  "'tag sliding_window_semaphore \<Rightarrow> 'tag \<Rightarrow> bool \<Rightarrow> int outcome \<times> 'tag sliding_window_semaphore"
where
  "acquire s tag blocking =
     (if count s = 0 then
        (if \<not> blocking then (Raised NoResourcesAvailable, s) else (Blocked, s))
      else
        (let (sequence_number, seqs) = defaultdict_getitem (tag_sequences s) tag;
             lows = (if sequence_number = 0
                     then AList.update tag sequence_number (lowest_sequence s)
                     else lowest_sequence s)
         in (Returned sequence_number,
             s\<lparr>count := count s - 1,
               tag_sequences := AList.update tag (sequence_number + 1) seqs,
               lowest_sequence := lows\<rparr>)))"

text \<open>
  The \<^verbatim>\<open>while queued:\<close> loop of \<^verbatim>\<open>release\<close>, on the three values it changes: the tag's
  lowest sequence number, the count, and the tag's pending list, whose last element is
  compared and popped.
\<close>

function drain_queued :: "int \<Rightarrow> int \<Rightarrow> int list \<Rightarrow> int \<times> int \<times> int list" where
  "drain_queued lowest cnt queued =
     (if queued \<noteq> [] then
        (if lowest = last queued
         then drain_queued (lowest + 1) (cnt + 1) (butlast queued)
         else (lowest, cnt, queued))
      else (lowest, cnt, queued))"
  by pat_completeness auto
termination
  by (relation "measure (\<lambda>(l, c, q). length q)") auto

declare drain_queued.simps [simp del]

text \<open>
  \<^verbatim>\<open>queued\<close> is the list object stored in \<^verbatim>\<open>self._pending_release\<close> when the tag has
  one, so popping it changes the dictionary; when the tag has none it is a fresh empty
  list and the loop does not run. \<^verbatim>\<open>sort(reverse=True)\<close> leaves the list in
  descending order.
\<close>

definition release ::
  "'tag sliding_window_semaphore \<Rightarrow> 'tag \<Rightarrow> int \<Rightarrow> unit outcome \<times> 'tag sliding_window_semaphore"
where
  "release s tag sequence_number =
     (case map_of (tag_sequences s) tag of
        None \<Rightarrow> (Raised ValueError_unknown_tag, s)
      | Some max_sequence \<Rightarrow>
          (case map_of (lowest_sequence s) tag of
             None \<Rightarrow> (Raised KeyError, s)
           | Some lowest \<Rightarrow>
               if lowest = sequence_number then
                 (let (lowest', count', queued') =
                        drain_queued (lowest + 1) (count s + 1)
                          (dict_get (pending_release s) tag)
                  in (Returned (),
                      s\<lparr>count := count',
                        lowest_sequence := AList.update tag lowest' (lowest_sequence s),
                        pending_release :=
                          (case map_of (pending_release s) tag of
                             None \<Rightarrow> pending_release s
                           | Some _ \<Rightarrow> AList.update tag queued' (pending_release s))\<rparr>))
               else if lowest < sequence_number \<and> sequence_number < max_sequence then
                 (Returned (),
                  s\<lparr>pending_release :=
                      AList.update tag
                        (rev (sort (dict_get (pending_release s) tag @ [sequence_number])))
                        (pending_release s)\<rparr>)
               else (Raised ValueError_unknown_sequence_number, s)))"

subsection \<open>Sequences of calls\<close>

datatype 'tag call = Acquire 'tag bool | Release 'tag int

text \<open>The outcome of a call carries the sequence number of an \<^verbatim>\<open>acquire\<close>, and nothing
  for a \<^verbatim>\<open>release\<close>.\<close>

fun perform ::
  "'tag sliding_window_semaphore \<Rightarrow> 'tag call \<Rightarrow>
     int option outcome \<times> 'tag sliding_window_semaphore"
where
  "perform s (Acquire tag blocking) =
     (case acquire s tag blocking of (r, s') \<Rightarrow> (map_outcome Some r, s'))"
| "perform s (Release tag n) =
     (case release s tag n of (r, s') \<Rightarrow> (map_outcome (\<lambda>u. None) r, s'))"

text \<open>The state after a sequence of calls, whatever their outcomes.\<close>

fun run :: "'tag sliding_window_semaphore \<Rightarrow> 'tag call list \<Rightarrow> 'tag sliding_window_semaphore"
where
  "run s [] = s"
| "run s (c # cs) = run (snd (perform s c)) cs"

text \<open>
  The sequence numbers that the successful \<^verbatim>\<open>acquire\<close> calls for one tag return during
  a sequence of calls, in the order of the calls.
\<close>

fun acquired :: "'tag \<Rightarrow> 'tag sliding_window_semaphore \<Rightarrow> 'tag call list \<Rightarrow> int list" where
  "acquired t s [] = []"
| "acquired t s (Acquire tag blocking # cs) =
     (case acquire s tag blocking of
        (Returned n, s') \<Rightarrow> (if tag = t then n # acquired t s' cs else acquired t s' cs)
      | (r, s') \<Rightarrow> acquired t s' cs)"
| "acquired t s (Release tag n # cs) = acquired t (snd (release s tag n)) cs"

text \<open>The calls that are an \<^verbatim>\<open>acquire\<close>, and those that are an \<^verbatim>\<open>acquire\<close> of a given tag.\<close>

fun is_acquire :: "'tag call \<Rightarrow> bool" where
  "is_acquire (Acquire tag blocking) = True"
| "is_acquire (Release tag n) = False"

fun is_acquire_of :: "'tag \<Rightarrow> 'tag call \<Rightarrow> bool" where
  "is_acquire_of t (Acquire tag blocking) = (tag = t)"
| "is_acquire_of t (Release tag n) = False"

subsection \<open>What the state means\<close>

text \<open>The next sequence number of a tag: what subscripting the \<^verbatim>\<open>defaultdict\<close> gives.\<close>

definition next_sequence :: "'tag sliding_window_semaphore \<Rightarrow> 'tag \<Rightarrow> int" where
  "next_sequence s tag = (case map_of (tag_sequences s) tag of Some n \<Rightarrow> n | None \<Rightarrow> 0)"

text \<open>
  The sum, over the tags the semaphore has seen, of the tag's next sequence number minus
  its lowest unreleased one.
\<close>

definition outstanding :: "'tag sliding_window_semaphore \<Rightarrow> int" where
  "outstanding s =
     (\<Sum>(tag, nxt) \<leftarrow> tag_sequences s. nxt - the (map_of (lowest_sequence s) tag))"

text \<open>Every tag is fully drained: its lowest unreleased number is its next number.\<close>

definition drained :: "'tag sliding_window_semaphore \<Rightarrow> bool" where
  "drained s =
     list_all (\<lambda>(tag, nxt). map_of (lowest_sequence s) tag = Some nxt) (tag_sequences s)"



text \<open>
  The invariant of the reachable states, for a semaphore created with count \<open>C\<close>: the two
  dictionaries of sequence numbers have the same keys in the same order, each once; the
  next numbers less the lowest ones add up to what has been taken from the count; a tag
  that is present has been acquired at least once; every pending list is in descending
  order.
\<close>

definition sem_inv :: "int \<Rightarrow> 'tag sliding_window_semaphore \<Rightarrow> bool" where
  "sem_inv C s \<longleftrightarrow>
     map fst (lowest_sequence s) = map fst (tag_sequences s) \<and>
     distinct (map fst (tag_sequences s)) \<and>
     sum_list (map snd (tag_sequences s)) - sum_list (map snd (lowest_sequence s)) =
       C - count s \<and>
     (\<forall>n \<in> snd ` set (tag_sequences s). 1 \<le> n) \<and>
     (\<forall>q \<in> snd ` set (pending_release s). sorted (rev q))"

text \<open>
  The sequence numbers that are held (acquired and not yet released) after a sequence of
  calls, when every \<^verbatim>\<open>release\<close> in it is of a number that is held at that point; \<open>None\<close>
  when some \<^verbatim>\<open>release\<close> is of a number that is not held. A sequence of calls pairs every
  acquired sequence number with exactly one release when it ends with nothing held.
\<close>

fun held_after ::
  "'tag sliding_window_semaphore \<Rightarrow> ('tag \<times> int) set \<Rightarrow> 'tag call list \<Rightarrow> ('tag \<times> int) set option"
where
  "held_after s H [] = Some H"
| "held_after s H (Acquire tag blocking # cs) =
     (case acquire s tag blocking of
        (Returned n, s') \<Rightarrow> held_after s' (insert (tag, n) H) cs
      | (r, s') \<Rightarrow> held_after s' H cs)"
| "held_after s H (Release tag n # cs) =
     (if (tag, n) \<in> H then held_after (snd (release s tag n)) (H - {(tag, n)}) cs else None)"

text \<open>
  What the state of one tag is when the given numbers of the tag are held: the lowest
  sequence number is the least held one, or the next number when none is held; the
  pending list holds, once each and in descending order, the released numbers above it.
\<close>

definition tag_ok_at :: "int option \<Rightarrow> int option \<Rightarrow> int list \<Rightarrow> int set \<Rightarrow> bool" where
  "tag_ok_at nxt low q A \<longleftrightarrow>
     (case nxt of
        None \<Rightarrow> A = {} \<and> q = []
      | Some n \<Rightarrow>
          (case low of
             None \<Rightarrow> False
           | Some l \<Rightarrow>
               1 \<le> n \<and> l \<le> n \<and> (\<forall>m \<in> A. l \<le> m \<and> m < n) \<and> (l < n \<longrightarrow> l \<in> A) \<and>
               set q = {m. l < m \<and> m < n \<and> m \<notin> A} \<and> distinct q \<and> sorted (rev q)))"

definition tag_ok :: "'tag sliding_window_semaphore \<Rightarrow> ('tag \<times> int) set \<Rightarrow> 'tag \<Rightarrow> bool" where
  "tag_ok s H t =
     tag_ok_at (map_of (tag_sequences s) t) (map_of (lowest_sequence s) t)
       (dict_get (pending_release s) t) {m. (t, m) \<in> H}"

section \<open>File objects\<close>

text \<open>
  The byte source under \<^verbatim>\<open>ReadFileChunk\<close> and \<^verbatim>\<open>DeferredOpenFile\<close> is the binary file
  object that \<^verbatim>\<open>open(name, 'rb')\<close> returns in Python 3: its contents, its position and
  whether it has been closed. \<^verbatim>\<open>read(n)\<close> returns at most \<^verbatim>\<open>n\<close> bytes from the position, everything up to
  the end when \<^verbatim>\<open>n\<close> is \<^verbatim>\<open>None\<close> or -1, and raises \<^verbatim>\<open>ValueError\<close> (read length must be
  non-negative or -1) when \<^verbatim>\<open>n\<close> is below -1; \<^verbatim>\<open>seek\<close> to a negative offset raises; every
  operation on a closed file raises \<^verbatim>\<open>ValueError\<close>. A call that raises leaves the position
  where it was.
\<close>

type_synonym bytes = string

record fileobj =
  content :: bytes
  pos :: nat
  closed :: bool

definition file_read :: "fileobj \<Rightarrow> int option \<Rightarrow> (error + bytes) \<times> fileobj" where
  "file_read f amount =
     (if (case amount of None \<Rightarrow> False | Some n \<Rightarrow> n < - 1)
      then (Inl ValueError_read_length, f)
      else if closed f then (Inl ValueError_closed_file, f)
      else
        (let data = (case amount of
                       None \<Rightarrow> drop (pos f) (content f)
                     | Some n \<Rightarrow>
                         if n = - 1 then drop (pos f) (content f)
                         else take (nat n) (drop (pos f) (content f)))
         in (Inr data, f\<lparr>pos := pos f + length data\<rparr>)))"

definition file_seek :: "fileobj \<Rightarrow> int \<Rightarrow> (error + int) \<times> fileobj" where
  "file_seek f offset =
     (if closed f then (Inl ValueError_closed_file, f)
      else if offset < 0 then (Inl OSError_invalid_argument, f)
      else (Inr offset, f\<lparr>pos := nat offset\<rparr>))"

definition file_tell :: "fileobj \<Rightarrow> (error + int)" where
  "file_tell f = (if closed f then Inl ValueError_closed_file else Inr (int (pos f)))"

definition file_close :: "fileobj \<Rightarrow> fileobj" where
  "file_close f = f\<lparr>closed := True\<rparr>"

text \<open>The files that exist, by name; \<^verbatim>\<open>open(filename, 'rb')\<close> and \<^verbatim>\<open>os.fstat(...).st_size\<close>.\<close>

type_synonym filesystem = "string \<Rightarrow> bytes option"

definition open_rb :: "filesystem \<Rightarrow> string \<Rightarrow> (error + fileobj)" where
  "open_rb fs filename =
     (case fs filename of
        None \<Rightarrow> Inl IOError_no_such_file
      | Some b \<Rightarrow> Inr \<lparr>content = b, pos = 0, closed = False\<rparr>)"

definition st_size :: "fileobj \<Rightarrow> int" where
  "st_size f = int (length (content f))"

section \<open>Progress callbacks\<close>

text \<open>
  A callback is an opaque value of the caller; what the code does with it is call it with
  a number. The effect of a function on the callbacks is the list of the calls it makes,
  in order, each a pair of the callback and the \<^verbatim>\<open>bytes_transferred\<close> it is given.
\<close>

definition invoke_progress_callbacks :: "'cb list \<Rightarrow> int \<Rightarrow> ('cb \<times> int) list" where
  "invoke_progress_callbacks callbacks bytes_transferred =
     (if bytes_transferred \<noteq> 0
      then map (\<lambda>callback. (callback, bytes_transferred)) callbacks
      else [])"

section \<open>DeferredOpenFile\<close>

record deferred_open_file =
  dof_filename :: string
  dof_fileobj :: "fileobj option"
  dof_start_byte :: int

definition DeferredOpenFile :: "string \<Rightarrow> int \<Rightarrow> deferred_open_file" where
  "DeferredOpenFile filename start_byte =
     \<lparr>dof_filename = filename, dof_fileobj = None, dof_start_byte = start_byte\<rparr>"

text \<open>
  \<^verbatim>\<open>_open_if_needed\<close>; the model hands back \<^verbatim>\<open>self._fileobj\<close> as it is after the call.
  The handle is stored before the seek, so it stays stored when the seek raises.
\<close>

definition open_if_needed ::
  "filesystem \<Rightarrow> deferred_open_file \<Rightarrow> (error + fileobj) \<times> deferred_open_file"
where
  "open_if_needed fs d =
     (case dof_fileobj d of
        Some f \<Rightarrow> (Inr f, d)
      | None \<Rightarrow>
          (case open_rb fs (dof_filename d) of
             Inl e \<Rightarrow> (Inl e, d)
           | Inr f \<Rightarrow>
               (case file_seek f (dof_start_byte d) of
                  (Inl e, f') \<Rightarrow> (Inl e, d\<lparr>dof_fileobj := Some f'\<rparr>)
                | (Inr w, f') \<Rightarrow> (Inr f', d\<lparr>dof_fileobj := Some f'\<rparr>))))"

definition dof_read ::
  "filesystem \<Rightarrow> deferred_open_file \<Rightarrow> int option \<Rightarrow> (error + bytes) \<times> deferred_open_file"
where
  "dof_read fs d amount =
     (case open_if_needed fs d of
        (Inl e, d') \<Rightarrow> (Inl e, d')
      | (Inr f, d') \<Rightarrow>
          (case file_read f amount of (r, f') \<Rightarrow> (r, d'\<lparr>dof_fileobj := Some f'\<rparr>)))"

definition dof_seek ::
  "filesystem \<Rightarrow> deferred_open_file \<Rightarrow> int \<Rightarrow> (error + unit) \<times> deferred_open_file"
where
  "dof_seek fs d offset =
     (case open_if_needed fs d of
        (Inl e, d') \<Rightarrow> (Inl e, d')
      | (Inr f, d') \<Rightarrow>
          (case file_seek f offset of
             (Inl e, f') \<Rightarrow> (Inl e, d'\<lparr>dof_fileobj := Some f'\<rparr>)
           | (Inr w, f') \<Rightarrow> (Inr (), d'\<lparr>dof_fileobj := Some f'\<rparr>)))"

definition dof_tell :: "deferred_open_file \<Rightarrow> (error + int) \<times> deferred_open_file" where
  "dof_tell d =
     (case dof_fileobj d of
        None \<Rightarrow> (Inr (dof_start_byte d), d)
      | Some f \<Rightarrow> (file_tell f, d))"

definition dof_close :: "deferred_open_file \<Rightarrow> deferred_open_file" where
  "dof_close d =
     (case dof_fileobj d of
        None \<Rightarrow> d
      | Some f \<Rightarrow> d\<lparr>dof_fileobj := Some (file_close f)\<rparr>)"

definition dof_enter ::
  "filesystem \<Rightarrow> deferred_open_file \<Rightarrow> (error + unit) \<times> deferred_open_file"
where
  "dof_enter fs d =
     (case open_if_needed fs d of
        (Inl e, d') \<Rightarrow> (Inl e, d')
      | (Inr f, d') \<Rightarrow> (Inr (), d'))"

definition dof_exit :: "deferred_open_file \<Rightarrow> deferred_open_file" where
  "dof_exit d = dof_close d"

subsection \<open>Sequences of calls\<close>

datatype dof_call = DRead "int option" | DSeek int | DTell | DEnter | DClose | DExit

fun dof_perform :: "filesystem \<Rightarrow> deferred_open_file \<Rightarrow> dof_call \<Rightarrow> deferred_open_file" where
  "dof_perform fs d (DRead amount) = snd (dof_read fs d amount)"
| "dof_perform fs d (DSeek offset) = snd (dof_seek fs d offset)"
| "dof_perform fs d DTell = snd (dof_tell d)"
| "dof_perform fs d DEnter = snd (dof_enter fs d)"
| "dof_perform fs d DClose = dof_close d"
| "dof_perform fs d DExit = dof_exit d"

fun dof_run :: "filesystem \<Rightarrow> deferred_open_file \<Rightarrow> dof_call list \<Rightarrow> deferred_open_file" where
  "dof_run fs d [] = d"
| "dof_run fs d (c # cs) = dof_run fs (dof_perform fs d c) cs"

text \<open>A call that does not seek to before the given byte.\<close>

fun not_before :: "int \<Rightarrow> dof_call \<Rightarrow> bool" where
  "not_before b (DSeek offset) = (b \<le> offset)"
| "not_before b (DRead amount) = True"
| "not_before b DTell = True"
| "not_before b DEnter = True"
| "not_before b DClose = True"
| "not_before b DExit = True"

text \<open>The calls that open the file when it is not open yet.\<close>

fun opens :: "dof_call \<Rightarrow> bool" where
  "opens (DRead amount) = True"
| "opens (DSeek offset) = True"
| "opens DEnter = True"
| "opens DTell = False"
| "opens DClose = False"
| "opens DExit = False"

text \<open>The handle, once there is one, is not before the start byte.\<close>

definition handle_not_before :: "deferred_open_file \<Rightarrow> bool" where
  "handle_not_before d \<longleftrightarrow>
     (case dof_fileobj d of None \<Rightarrow> True | Some f \<Rightarrow> dof_start_byte d \<le> int (pos f))"

section \<open>ReadFileChunk\<close>

record 'cb read_file_chunk =
  rfc_fileobj :: fileobj
  rfc_start_byte :: int
  rfc_size :: int
  rfc_amount_read :: int
  rfc_callbacks :: "'cb list"
  rfc_callbacks_enabled :: bool

definition calculate_file_size :: "int \<Rightarrow> int \<Rightarrow> int \<Rightarrow> int" where
  "calculate_file_size requested_size start_byte actual_file_size =
     (let max_chunk_size = actual_file_size - start_byte
      in min max_chunk_size requested_size)"

definition ReadFileChunk ::
  "fileobj \<Rightarrow> int \<Rightarrow> int \<Rightarrow> 'cb list option \<Rightarrow> bool \<Rightarrow> error + 'cb read_file_chunk"
where
  "ReadFileChunk f chunk_size full_file_size callbacks enable_callbacks =
     (case file_tell f of
        Inr start_byte \<Rightarrow>
          Inr
            \<lparr>rfc_fileobj = f,
             rfc_start_byte = start_byte,
             rfc_size = calculate_file_size chunk_size start_byte full_file_size,
             rfc_amount_read = 0,
             rfc_callbacks = (case callbacks of None \<Rightarrow> [] | Some cbs \<Rightarrow> cbs),
             rfc_callbacks_enabled = enable_callbacks\<rparr>
      | Inl e \<Rightarrow> Inl e)"

definition from_filename ::
  "filesystem \<Rightarrow> string \<Rightarrow> int \<Rightarrow> int \<Rightarrow> 'cb list option \<Rightarrow> bool \<Rightarrow>
     error + 'cb read_file_chunk"
where
  "from_filename fs filename start_byte chunk_size callbacks enable_callbacks =
     (case open_rb fs filename of
        Inr f \<Rightarrow>
          (case file_seek f start_byte of
             (Inr w, f') \<Rightarrow>
               ReadFileChunk f' chunk_size (st_size f') callbacks enable_callbacks
           | (Inl e, f') \<Rightarrow> Inl e)
      | Inl e \<Rightarrow> Inl e)"

text \<open>
  Each method returns its outcome, the chunk as the call leaves it, and the calls it made
  to progress callbacks.
\<close>

definition rfc_read ::
  "'cb read_file_chunk \<Rightarrow> int option \<Rightarrow>
     (error + bytes) \<times> 'cb read_file_chunk \<times> ('cb \<times> int) list"
where
  "rfc_read c amount =
     (let amount_to_read =
            (case amount of
               None \<Rightarrow> rfc_size c - rfc_amount_read c
             | Some a \<Rightarrow> min (rfc_size c - rfc_amount_read c) a)
      in case file_read (rfc_fileobj c) (Some amount_to_read) of
           (Inr data, f') \<Rightarrow>
             (Inr data,
              c\<lparr>rfc_fileobj := f',
                rfc_amount_read := rfc_amount_read c + int (length data)\<rparr>,
              if rfc_callbacks_enabled c
              then invoke_progress_callbacks (rfc_callbacks c) (int (length data))
              else [])
         | (Inl e, f') \<Rightarrow> (Inl e, c\<lparr>rfc_fileobj := f'\<rparr>, []))"

definition enable_callback :: "'cb read_file_chunk \<Rightarrow> 'cb read_file_chunk" where
  "enable_callback c = c\<lparr>rfc_callbacks_enabled := True\<rparr>"

definition disable_callback :: "'cb read_file_chunk \<Rightarrow> 'cb read_file_chunk" where
  "disable_callback c = c\<lparr>rfc_callbacks_enabled := False\<rparr>"

definition rfc_seek ::
  "'cb read_file_chunk \<Rightarrow> int \<Rightarrow> (error + unit) \<times> 'cb read_file_chunk \<times> ('cb \<times> int) list"
where
  "rfc_seek c offset =
     (case file_seek (rfc_fileobj c) (rfc_start_byte c + offset) of
        (Inr w, f') \<Rightarrow>
          (Inr (),
           c\<lparr>rfc_fileobj := f', rfc_amount_read := offset\<rparr>,
           if rfc_callbacks_enabled c
           then invoke_progress_callbacks (rfc_callbacks c) (offset - rfc_amount_read c)
           else [])
      | (Inl e, f') \<Rightarrow> (Inl e, c\<lparr>rfc_fileobj := f'\<rparr>, []))"

definition rfc_close :: "'cb read_file_chunk \<Rightarrow> 'cb read_file_chunk" where
  "rfc_close c = c\<lparr>rfc_fileobj := file_close (rfc_fileobj c)\<rparr>"

definition rfc_tell :: "'cb read_file_chunk \<Rightarrow> int" where
  "rfc_tell c = rfc_amount_read c"

definition rfc_len :: "'cb read_file_chunk \<Rightarrow> int" where
  "rfc_len c = rfc_size c"

subsection \<open>Sequences of calls\<close>

datatype chunk_call = Read "int option" | Seek int | EnableCallback | DisableCallback | Close

fun rfc_perform ::
  "'cb read_file_chunk \<Rightarrow> chunk_call \<Rightarrow> 'cb read_file_chunk \<times> ('cb \<times> int) list"
where
  "rfc_perform c (Read amount) = snd (rfc_read c amount)"
| "rfc_perform c (Seek offset) = snd (rfc_seek c offset)"
| "rfc_perform c EnableCallback = (enable_callback c, [])"
| "rfc_perform c DisableCallback = (disable_callback c, [])"
| "rfc_perform c Close = (rfc_close c, [])"

text \<open>The chunk after a sequence of calls, and all the callback calls made on the way.\<close>

fun rfc_run ::
  "'cb read_file_chunk \<Rightarrow> chunk_call list \<Rightarrow> 'cb read_file_chunk \<times> ('cb \<times> int) list"
where
  "rfc_run c [] = (c, [])"
| "rfc_run c (x # xs) =
     (let (c', evs) = rfc_perform c x;
          (c'', evs') = rfc_run c' xs
      in (c'', evs @ evs'))"

text \<open>
  A call that stays within the window of the given size: a read of no amount or of a
  non-negative amount, a seek to an offset from 0 to the size.
\<close>

fun within_window :: "int \<Rightarrow> chunk_call \<Rightarrow> bool" where
  "within_window sz (Read None) = True"
| "within_window sz (Read (Some a)) = (0 \<le> a)"
| "within_window sz (Seek offset) = (0 \<le> offset \<and> offset \<le> sz)"
| "within_window sz EnableCallback = True"
| "within_window sz DisableCallback = True"
| "within_window sz Close = True"

subsection \<open>What the state means\<close>

text \<open>The cursor is within the window.\<close>

definition cursor_in_window :: "'cb read_file_chunk \<Rightarrow> bool" where
  "cursor_in_window c \<longleftrightarrow> 0 \<le> rfc_amount_read c \<and> rfc_amount_read c \<le> rfc_size c"

text \<open>
  The cursor is within the window, the window is within the contents of the file, and the
  file is positioned at the cursor.
\<close>

definition chunk_inv :: "'cb read_file_chunk \<Rightarrow> bool" where
  "chunk_inv c \<longleftrightarrow>
     0 \<le> rfc_amount_read c \<and> rfc_amount_read c \<le> rfc_size c \<and>
     0 \<le> rfc_start_byte c \<and>
     int (pos (rfc_fileobj c)) = rfc_start_byte c + rfc_amount_read c \<and>
     rfc_start_byte c + rfc_size c \<le> int (length (content (rfc_fileobj c)))"

text \<open>What the constructor fixes and no method changes.\<close>

definition same_window :: "'cb read_file_chunk \<Rightarrow> 'cb read_file_chunk \<Rightarrow> bool" where
  "same_window c c' \<longleftrightarrow>
     rfc_size c' = rfc_size c \<and> rfc_start_byte c' = rfc_start_byte c \<and>
     content (rfc_fileobj c') = content (rfc_fileobj c)"

section \<open>StreamReaderProgress\<close>

record 'cb stream_reader_progress =
  srp_stream :: fileobj
  srp_callbacks :: "'cb list"

definition StreamReaderProgress :: "fileobj \<Rightarrow> 'cb list option \<Rightarrow> 'cb stream_reader_progress" where
  "StreamReaderProgress stream callbacks =
     \<lparr>srp_stream = stream,
      srp_callbacks = (case callbacks of None \<Rightarrow> [] | Some cbs \<Rightarrow> cbs)\<rparr>"

definition srp_read ::
  "'cb stream_reader_progress \<Rightarrow> int option \<Rightarrow>
     (error + bytes) \<times> 'cb stream_reader_progress \<times> ('cb \<times> int) list"
where
  "srp_read r amount =
     (case file_read (srp_stream r) amount of
        (Inr v, f') \<Rightarrow>
          (Inr v, r\<lparr>srp_stream := f'\<rparr>,
           invoke_progress_callbacks (srp_callbacks r) (int (length v)))
      | (Inl e, f') \<Rightarrow> (Inl e, r\<lparr>srp_stream := f'\<rparr>, []))"

section \<open>Evaluating calls\<close>

text \<open>The defining equations that evaluate a call on given arguments.\<close>

lemmas semaphore_eval = SlidingWindowSemaphore_def acquire_def defaultdict_getitem_def release_def
  dict_get_def drain_queued.simps current_count_def

lemmas chunk_eval = ReadFileChunk_def calculate_file_size_def file_tell_def file_read_def
  file_seek_def file_close_def rfc_read_def rfc_seek_def rfc_tell_def rfc_len_def
  invoke_progress_callbacks_def enable_callback_def disable_callback_def rfc_close_def Let_def

lemmas dof_eval = DeferredOpenFile_def open_if_needed_def open_rb_def dof_read_def dof_seek_def
  dof_tell_def dof_close_def dof_enter_def dof_exit_def file_read_def file_seek_def file_tell_def
  file_close_def Let_def

section \<open>Association lists\<close>

lemma update_absent: "map_of al k = None \<Longrightarrow> AList.update k v al = al @ [(k, v)]"
  by (induction al) (auto split: if_splits)

lemma update_absent_twice:
  "map_of al k = None \<Longrightarrow> AList.update k v (al @ [(k, w)]) = al @ [(k, v)]"
  by (induction al) (auto split: if_splits)

lemma update_present_keys: "map_of al k = Some old \<Longrightarrow> map fst (AList.update k v al) = map fst al"
  by (induction al) (auto split: if_splits)

lemma update_present_sum:
  "map_of al k = Some old \<Longrightarrow>
     sum_list (map snd (AList.update k v al)) = sum_list (map snd al) - old + (v::int)"
  by (induction al) (auto split: if_splits)

lemma update_values: "snd ` set (AList.update k v al) \<subseteq> insert v (snd ` set al)"
  by (induction al) (auto split: if_splits)

lemma map_of_same_keys:
  "map fst al = map fst bl \<Longrightarrow> (map_of al k = None) = (map_of bl k = None)"
  by (metis map_of_eq_None_iff set_map)

section \<open>The invariant of the semaphore\<close>

lemma acquire_raised_unchanged:
  "acquire s tag blocking = (Raised e, s') \<Longrightarrow> s' = s \<and> e = NoResourcesAvailable \<and> count s = 0"
  by (auto simp: acquire_def Let_def split: if_splits prod.splits)

lemma release_raised_unchanged:
  "release s tag n = (Raised e, s') \<Longrightarrow> s' = s"
  by (auto simp: release_def Let_def split: if_splits prod.splits option.splits)

lemma sem_inv_init: "sem_inv C (SlidingWindowSemaphore C)"
  by (simp add: sem_inv_def SlidingWindowSemaphore_def)

lemma sem_inv_acquire:
  assumes "sem_inv C s" shows "sem_inv C (snd (acquire s tag blocking))"
proof (cases "count s = 0")
  case True
  then show ?thesis using assms by (simp add: acquire_def)
next
  case False
  show ?thesis
  proof (cases "map_of (tag_sequences s) tag")
    case None
    then have l: "map_of (lowest_sequence s) tag = None"
      using assms map_of_same_keys[of "lowest_sequence s" "tag_sequences s" tag]
      by (simp add: sem_inv_def)
    have k: "tag \<notin> set (map fst (tag_sequences s))"
      using None by (simp add: map_of_eq_None_iff)
    show ?thesis using assms False None l k
      by (simp add: acquire_def defaultdict_getitem_def update_absent update_absent_twice
          sem_inv_def)
  next
    case (Some n)
    then have n: "1 \<le> n" using assms
      by (force simp: sem_inv_def dest: map_of_SomeD)
    have v: "snd ` set (AList.update tag (n + 1) (tag_sequences s)) \<subseteq>
             insert (n + 1) (snd ` set (tag_sequences s))"
      by (rule update_values)
    have "\<forall>m \<in> snd ` set (AList.update tag (n + 1) (tag_sequences s)). 1 \<le> m"
    proof
      fix m assume "m \<in> snd ` set (AList.update tag (n + 1) (tag_sequences s))"
      then have "m = n + 1 \<or> m \<in> snd ` set (tag_sequences s)" using v by blast
      then show "1 \<le> m" using n assms by (auto simp: sem_inv_def)
    qed
    then show ?thesis using assms False Some n
      by (simp add: acquire_def defaultdict_getitem_def sem_inv_def
          update_present_keys update_present_sum)
  qed
qed

lemma drain_queued_diff:
  "drain_queued l c q = (l', c', q') \<Longrightarrow> l' - l = c' - c"
proof (induction l c q rule: drain_queued.induct)
  case (1 lowest cnt queued)
  then show ?case
    by (subst (asm) (2) drain_queued.simps) (auto split: if_splits)
qed

lemma drain_queued_mono: "drain_queued l c q = (l', c', q') \<Longrightarrow> c \<le> c'"
proof (induction l c q rule: drain_queued.induct)
  case (1 lowest cnt queued)
  then show ?case
    by (subst (asm) (2) drain_queued.simps) (auto split: if_splits)
qed

lemma sorted_rev_butlast: "sorted (rev q) \<Longrightarrow> sorted (rev (butlast q))"
  by (cases q rule: rev_cases) auto

lemma drain_queued_sorted:
  "drain_queued l c q = (l', c', q') \<Longrightarrow> sorted (rev q) \<Longrightarrow> sorted (rev q')"
proof (induction l c q rule: drain_queued.induct)
  case (1 lowest cnt queued)
  then show ?case
    by (subst (asm) (2) drain_queued.simps) (auto split: if_splits simp: sorted_rev_butlast)
qed

lemma sorted_rev_sort: "sorted (rev (rev (sort (xs::int list))))"
  by simp

lemma pending_update_sorted:
  assumes "\<forall>q \<in> snd ` set al. sorted (rev q)" "sorted (rev v)"
  shows "\<forall>q \<in> snd ` set (AList.update k v al). sorted (rev q)"
  using assms update_values[of k v al] by blast

lemma dict_get_sorted:
  "\<forall>q \<in> snd ` set al. sorted (rev q) \<Longrightarrow> sorted (rev (dict_get al k))"
  by (auto simp: dict_get_def split: option.splits dest!: map_of_SomeD)

lemma sem_inv_release:
  assumes "sem_inv C s" shows "sem_inv C (snd (release s tag n))"
proof (cases "map_of (tag_sequences s) tag")
  case None
  then show ?thesis using assms by (simp add: release_def)
next
  case (Some mx)
  show ?thesis
  proof (cases "map_of (lowest_sequence s) tag")
    case None
    then show ?thesis using assms Some by (simp add: release_def)
  next
    case (Some l)
    note low = Some
    have ps: "\<forall>q \<in> snd ` set (pending_release s). sorted (rev q)"
      using assms by (simp add: sem_inv_def)
    show ?thesis
    proof (cases "l = n")
      case True
      obtain l' c' q' where d: "drain_queued (l + 1) (count s + 1) (dict_get (pending_release s) tag) = (l', c', q')"
        by (metis prod_cases3)
      have diff: "l' - (l + 1) = c' - (count s + 1)" using d by (rule drain_queued_diff)
      have sq: "sorted (rev q')" using d dict_get_sorted[OF ps] by (rule drain_queued_sorted)
      have pq: "\<forall>q \<in> snd ` set (AList.update tag q' (pending_release s)). sorted (rev q)"
        using ps sq by (rule pending_update_sorted)
      show ?thesis using assms \<open>map_of (tag_sequences s) tag = Some mx\<close> low True d diff pq
        by (auto simp: release_def sem_inv_def update_present_keys update_present_sum
            split: option.splits)
    next
      case False
      have "sorted (rev (rev (sort (dict_get (pending_release s) tag @ [n]))))" by simp
      with ps have "\<forall>q \<in> snd ` set (AList.update tag
          (rev (sort (dict_get (pending_release s) tag @ [n]))) (pending_release s)). sorted (rev q)"
        by (rule pending_update_sorted)
      then show ?thesis using assms \<open>map_of (tag_sequences s) tag = Some mx\<close> low False
        by (simp add: release_def sem_inv_def)
    qed
  qed
qed

lemma sem_inv_perform: "sem_inv C s \<Longrightarrow> sem_inv C (snd (perform s c))"
proof (cases c)
  case (Acquire t b)
  assume "sem_inv C s"
  then have "sem_inv C (snd (acquire s t b))" by (rule sem_inv_acquire)
  then show ?thesis using Acquire by (auto split: prod.splits outcome.splits)
next
  case (Release t n)
  assume "sem_inv C s"
  then have "sem_inv C (snd (release s t n))" by (rule sem_inv_release)
  then show ?thesis using Release by (auto split: prod.splits outcome.splits)
qed

lemma sem_inv_run: "sem_inv C s \<Longrightarrow> sem_inv C (run s cs)"
  by (induction cs arbitrary: s) (auto simp: sem_inv_perform)

section \<open>Failed calls leave the semaphore as it was\<close>

text \<open>
  C10. A call on the semaphore that raises leaves the whole state (the count and the three
  dictionaries) as it was before the call: an \<^verbatim>\<open>acquire\<close> that raises
  \<^verbatim>\<open>NoResourcesAvailable\<close>, and a \<^verbatim>\<open>release\<close> that raises either \<^verbatim>\<open>ValueError\<close>. It holds
  in every state, reachable or not.
\<close>

theorem failed_call_leaves_semaphore_unchanged:
  "(acquire s tag blocking = (Raised e, s') \<longrightarrow> s' = s) \<and>
   (release s tag n = (Raised e, s') \<longrightarrow> s' = s)"
  by (auto dest: acquire_raised_unchanged release_raised_unchanged)

theorem failed_call_leaves_semaphore_unchanged_witness:
  "acquire (run (SlidingWindowSemaphore 1) [Acquire ''a'' False]) ''a'' False =
     (Raised NoResourcesAvailable, run (SlidingWindowSemaphore 1) [Acquire ''a'' False]) \<and>
   release (run (SlidingWindowSemaphore 1) [Acquire ''a'' False]) ''b'' 0 =
     (Raised ValueError_unknown_tag, run (SlidingWindowSemaphore 1) [Acquire ''a'' False]) \<and>
   release (run (SlidingWindowSemaphore 1) [Acquire ''a'' False]) ''a'' 1 =
     (Raised ValueError_unknown_sequence_number,
      run (SlidingWindowSemaphore 1) [Acquire ''a'' False])"
  using failed_call_leaves_semaphore_unchanged
    [of "run (SlidingWindowSemaphore 1) [Acquire ''a'' False]" "''a''" False
        NoResourcesAvailable "run (SlidingWindowSemaphore 1) [Acquire ''a'' False]" 1]
  by (simp add: SlidingWindowSemaphore_def acquire_def defaultdict_getitem_def release_def)

section \<open>Releasing a sequence number twice\<close>

text \<open>
  After a \<^verbatim>\<open>release\<close> of the lowest sequence number has returned, the lowest sequence number
  is above it, and a second \<^verbatim>\<open>release\<close> of the same number raises.
\<close>

lemma drain_queued_lowest_mono: "drain_queued l c q = (l', c', q') \<Longrightarrow> l \<le> l'"
proof (induction l c q rule: drain_queued.induct)
  case (1 lowest cnt queued)
  then show ?case
    by (subst (asm) (2) drain_queued.simps) (auto split: if_splits)
qed

lemma release_in_order_then_again:
  assumes low: "map_of (lowest_sequence s) tag = Some n"
      and rel: "release s tag n = (Returned (), s')"
  shows "release s' tag n = (Raised ValueError_unknown_sequence_number, s')"
proof -
  obtain mx where mx: "map_of (tag_sequences s) tag = Some mx"
    using rel by (cases "map_of (tag_sequences s) tag") (simp_all add: release_def)
  obtain l' c' q' where d:
    "drain_queued (n + 1) (count s + 1) (dict_get (pending_release s) tag) = (l', c', q')"
    by (metis prod_cases3)
  have l': "n < l'" using drain_queued_lowest_mono[OF d] by simp
  have "map_of (tag_sequences s') tag = Some mx" "map_of (lowest_sequence s') tag = Some l'"
    using rel mx low d by (auto simp: release_def AList.update_conv')
  then show ?thesis using l' by (simp add: release_def)
qed

text \<open>
  C1. The claim is that a second \<^verbatim>\<open>release\<close> of the same tag and sequence number raises
  \<^verbatim>\<open>ValueError\<close>, also when the first one only queued the number, and that a number
  outside the half-open range from the tag's lowest unreleased number to its next number
  raises. The code does neither in these two runs: with 0, 1 and 2 acquired, releasing 1
  twice returns both times and leaves 1 queued twice; and with 0 acquired and released,
  releasing the never issued 1 returns and takes the count above its initial value.
\<close>

theorem release_twice_returns:
  "fst (release (run (SlidingWindowSemaphore 3)
          [Acquire ''a'' False, Acquire ''a'' False, Acquire ''a'' False]) ''a'' 1) = Returned () \<and>
   release (run (SlidingWindowSemaphore 3)
          [Acquire ''a'' False, Acquire ''a'' False, Acquire ''a'' False, Release ''a'' 1]) ''a'' 1 =
     (Returned (),
      \<lparr>count = 0, tag_sequences = [(''a'', 3)], lowest_sequence = [(''a'', 0)],
       pending_release = [(''a'', [1, 1])]\<rparr>) \<and>
   release (run (SlidingWindowSemaphore 3) [Acquire ''a'' False, Release ''a'' 0]) ''a'' 1 =
     (Returned (),
      \<lparr>count = 4, tag_sequences = [(''a'', 1)], lowest_sequence = [(''a'', 2)],
       pending_release = []\<rparr>)"
  by (simp add: SlidingWindowSemaphore_def acquire_def defaultdict_getitem_def release_def
      dict_get_def drain_queued.simps)

section \<open>Conservation of the count\<close>

lemma outstanding_sums:
  "map fst ls = map fst ts \<Longrightarrow> distinct (map fst ts) \<Longrightarrow>
     (\<Sum>(t, n) \<leftarrow> ts. n - the (map_of ls t)) =
       sum_list (map snd ts) - sum_list (map snd (ls :: ('k \<times> int) list))"
proof (induction ts arbitrary: ls)
  case Nil
  then show ?case by simp
next
  case (Cons p ts)
  obtain k n where p: "p = (k, n)" by (cases p)
  from Cons.prems obtain l ls' where ls: "ls = (k, l) # ls'" and keys: "map fst ls' = map fst ts"
    using p by (cases ls) auto
  have fresh: "k \<notin> fst ` set ts" using Cons.prems p by simp
  have "(\<Sum>(t, n) \<leftarrow> ts. n - the (map_of ls t)) = (\<Sum>(t, n) \<leftarrow> ts. n - the (map_of ls' t))"
    using fresh ls by (intro arg_cong[where f = sum_list] map_cong) force+
  moreover have "(\<Sum>(t, n) \<leftarrow> ts. n - the (map_of ls' t)) =
                 sum_list (map snd ts) - sum_list (map snd ls')"
    using Cons.IH[OF keys] Cons.prems by simp
  ultimately show ?case using p ls by simp
qed

lemma sem_inv_outstanding:
  "sem_inv C s \<Longrightarrow> outstanding s = C - count s"
  by (simp add: sem_inv_def outstanding_def outstanding_sums)

lemma drained_outstanding:
  assumes "drained s" shows "outstanding s = 0"
proof -
  have "(\<Sum>(tag, nxt) \<leftarrow> tag_sequences s. nxt - the (map_of (lowest_sequence s) tag)) =
        (\<Sum>p \<leftarrow> tag_sequences s. 0)"
    using assms
    by (intro arg_cong[where f = sum_list] map_cong) (auto simp: drained_def list_all_iff)
  then show ?thesis by (simp add: outstanding_def)
qed

subsection \<open>Sequences of calls that release what they acquire\<close>

lemma tag_ok_init: "tag_ok (SlidingWindowSemaphore C) {} t"
  by (simp add: tag_ok_def tag_ok_at_def SlidingWindowSemaphore_def dict_get_def)

lemma acquire_not_returned:
  "acquire s t b = (r, s') \<Longrightarrow> \<forall>n. r \<noteq> Returned n \<Longrightarrow> s' = s"
  by (auto simp: acquire_def defaultdict_getitem_def split: if_splits option.splits)

lemma acquire_tag_ok:
  assumes J: "\<forall>u. tag_ok s H u" and a: "acquire s t b = (Returned n, s')"
  shows "tag_ok s' (insert (t, n) H) u"
proof (cases "u = t")
  case False
  have "map_of (tag_sequences s') u = map_of (tag_sequences s) u"
       "map_of (lowest_sequence s') u = map_of (lowest_sequence s) u"
       "pending_release s' = pending_release s"
    using a False
    by (auto simp: acquire_def defaultdict_getitem_def AList.update_conv'
        split: if_splits option.splits)
  moreover have "{m. (u, m) \<in> insert (t, n) H} = {m. (u, m) \<in> H}" using False by auto
  ultimately have "tag_ok s' (insert (t, n) H) u = tag_ok s H u"
    unfolding tag_ok_def by simp
  then show ?thesis using J by simp
next
  case True
  have p: "pending_release s' = pending_release s"
    using a by (auto simp: acquire_def defaultdict_getitem_def split: if_splits option.splits)
  have A: "{m. (t, m) \<in> insert (t, n) H} = insert n {m. (t, m) \<in> H}" by auto
  have old: "tag_ok_at (map_of (tag_sequences s) t) (map_of (lowest_sequence s) t)
       (dict_get (pending_release s) t) {m. (t, m) \<in> H}"
    using J by (simp add: tag_ok_def)
  show ?thesis
  proof (cases "map_of (tag_sequences s) t")
    case None
    then have n: "n = 0" "map_of (tag_sequences s') t = Some 1"
        "map_of (lowest_sequence s') t = Some 0"
      using a
      by (auto simp: acquire_def defaultdict_getitem_def AList.update_conv' split: if_splits)
    have o: "{m. (t, m) \<in> H} = {}" "dict_get (pending_release s) t = []"
      using old None by (simp_all add: tag_ok_at_def)
    have "{m :: int. 0 < m \<and> m < 1 \<and> m \<noteq> 0} = {}" by auto
    then have "tag_ok_at (Some 1) (Some 0) [] {0}"
      by (simp add: tag_ok_at_def)
    then show ?thesis using True n o p A by (simp add: tag_ok_def)
  next
    case (Some k)
    then obtain l where l: "map_of (lowest_sequence s) t = Some l"
      using old by (cases "map_of (lowest_sequence s) t") (simp_all add: tag_ok_at_def)
    let ?A = "{m. (t, m) \<in> H}" and ?q = "dict_get (pending_release s) t"
    have ok: "1 \<le> k" "l \<le> k" "\<forall>m \<in> ?A. l \<le> m \<and> m < k" "l < k \<longrightarrow> l \<in> ?A"
        "set ?q = {m. l < m \<and> m < k \<and> m \<notin> ?A}" "distinct ?q" "sorted (rev ?q)"
      using old Some l by (simp_all add: tag_ok_at_def)
    have n: "n = k" "map_of (tag_sequences s') t = Some (k + 1)"
        "map_of (lowest_sequence s') t = Some l"
      using a Some l ok(1)
      by (auto simp: acquire_def defaultdict_getitem_def AList.update_conv' split: if_splits)
    have e: "{m. l < m \<and> m < k + 1 \<and> m \<notin> insert k ?A} = {m. l < m \<and> m < k \<and> m \<notin> ?A}"
      by auto
    have h: "\<forall>m \<in> insert k ?A. l \<le> m \<and> m < k + 1" using ok(2,3) by auto
    have f: "l < k + 1 \<longrightarrow> l \<in> insert k ?A" using ok(2,4) by auto
    have "tag_ok_at (Some (k + 1)) (Some l) ?q (insert k ?A)"
      unfolding tag_ok_at_def using ok(1,2,5,6,7) e h f by simp
    then show ?thesis using True n p A by (simp add: tag_ok_def)
  qed
qed

lemma sorted_rev_Min_last':
  assumes "sorted (rev q)" "q \<noteq> []" shows "\<forall>m \<in> set q. last q \<le> (m :: int)"
proof -
  obtain ys y where q: "q = ys @ [y]" using assms(2) by (cases q rule: rev_cases) auto
  then show ?thesis using assms(1) by auto
qed

lemma drain_queued_released:
  assumes "drain_queued lo c q = (l', c', q')"
      and "\<forall>m. m \<in> set q \<longleftrightarrow> lo \<le> m \<and> m < n \<and> m \<notin> A" "distinct q" "sorted (rev q)"
      and "lo \<le> n" "\<forall>m \<in> A. lo \<le> m \<and> m < n"
  shows "l' \<le> n \<and> (\<forall>m \<in> A. l' \<le> m \<and> m < n) \<and> (l' < n \<longrightarrow> l' \<in> A) \<and>
         (\<forall>m. m \<in> set q' \<longleftrightarrow> l' < m \<and> m < n \<and> m \<notin> A) \<and> distinct q' \<and> sorted (rev q')"
  using assms
proof (induction lo c q rule: drain_queued.induct)
  case (1 lowest cnt queued)
  note mem = "1.prems"(2)
  show ?case
  proof (cases "queued = []")
    case True
    have "drain_queued lowest cnt [] = (lowest, cnt, [])" by (subst drain_queued.simps) simp
    then have r: "l' = lowest" "q' = []" using "1.prems"(1) True by simp_all
    have all: "\<forall>m. lowest \<le> m \<and> m < n \<longrightarrow> m \<in> A" using mem True by simp
    have g3: "lowest < n \<longrightarrow> lowest \<in> A" using all by simp
    have "\<And>m. lowest < m \<Longrightarrow> m < n \<Longrightarrow> m \<in> A"
      using all by (simp add: less_imp_le)
    then have g4: "\<forall>m. m \<in> set [] \<longleftrightarrow> lowest < m \<and> m < n \<and> m \<notin> A" by simp
    have g5: "distinct ([] :: int list)" "sorted (rev ([] :: int list))" by simp_all
    show ?thesis unfolding r using "1.prems"(5,6) g3 g4 g5 by blast
  next
    case False
    have least: "\<forall>m \<in> set queued. last queued \<le> m"
      using "1.prems"(4) False by (rule sorted_rev_Min_last')
    have lastin: "last queued \<in> set queued" using False by simp
    then have lastmem: "lowest \<le> last queued" "last queued < n" "last queued \<notin> A"
      using mem by simp_all
    show ?thesis
    proof (cases "lowest = last queued")
      case True
      have d: "drain_queued (lowest + 1) (cnt + 1) (butlast queued) = (l', c', q')"
        using "1.prems"(1) False True by (subst (asm) drain_queued.simps) simp
      obtain ys y where q: "queued = ys @ [y]" using False by (cases queued rule: rev_cases) auto
      then have y: "y \<notin> set ys" "y = lowest" using "1.prems"(3) True by simp_all
      have s: "\<forall>m. m \<in> set (butlast queued) \<longleftrightarrow> lowest + 1 \<le> m \<and> m < n \<and> m \<notin> A"
      proof
        fix m
        have "m \<in> set ys \<longleftrightarrow> m \<in> set queued \<and> m \<noteq> lowest" using q y by auto
        also have "\<dots> \<longleftrightarrow> (lowest \<le> m \<and> m < n \<and> m \<notin> A) \<and> m \<noteq> lowest" using mem by simp
        also have "\<dots> \<longleftrightarrow> lowest + 1 \<le> m \<and> m < n \<and> m \<notin> A" by auto
        finally show "m \<in> set (butlast queued) \<longleftrightarrow> lowest + 1 \<le> m \<and> m < n \<and> m \<notin> A"
          using q by simp
      qed
      have a: "\<forall>m \<in> A. lowest + 1 \<le> m \<and> m < n"
      proof
        fix m assume "m \<in> A"
        then have "lowest \<le> m" "m < n" "m \<noteq> lowest" using "1.prems"(6) lastmem(3) True by auto
        then show "lowest + 1 \<le> m \<and> m < n" by simp
      qed
      have b: "lowest + 1 \<le> n" using lastmem(2) True by simp
      have c: "distinct (butlast queued)" "sorted (rev (butlast queued))"
        using "1.prems"(3,4) by (simp_all add: distinct_butlast sorted_rev_butlast)
      show ?thesis by (rule "1.IH"[OF False True d s c b a])
    next
      case ne: False
      then have "drain_queued lowest cnt queued = (lowest, cnt, queued)"
        by (subst drain_queued.simps) simp
      then have r: "l' = lowest" "q' = queued" using "1.prems"(1) by simp_all
      have gt: "\<forall>m \<in> set queued. lowest < m"
      proof
        fix m assume "m \<in> set queued"
        then have "last queued \<le> m" using least by simp
        then show "lowest < m" using lastmem(1) ne by simp
      qed
      have lt: "lowest < n" using lastmem by simp
      have "lowest \<notin> set queued" using gt by auto
      then have inA: "lowest \<in> A" using mem lt by simp
      have m': "\<forall>m. m \<in> set queued \<longleftrightarrow> lowest < m \<and> m < n \<and> m \<notin> A"
      proof
        fix m
        show "m \<in> set queued \<longleftrightarrow> lowest < m \<and> m < n \<and> m \<notin> A"
          using mem gt inA by (cases "m = lowest") auto
      qed
      have "lowest < n \<longrightarrow> lowest \<in> A" using inA by simp
      then show ?thesis unfolding r using "1.prems"(3,4,5,6) m' by blast
    qed
  qed
qed


lemma tag_ok_atI:
  assumes "1 \<le> n" "l \<le> n" "\<forall>m \<in> A. l \<le> m \<and> m < n" "l < n \<longrightarrow> l \<in> A"
      and "\<forall>m. m \<in> set q \<longleftrightarrow> l < m \<and> m < n \<and> m \<notin> A" "distinct q" "sorted (rev q)"
  shows "tag_ok_at (Some n) (Some l) q A"
proof -
  have "set q = {m. l < m \<and> m < n \<and> m \<notin> A}" using assms(5) by blast
  then show ?thesis unfolding tag_ok_at_def option.case using assms(1,2,3,4,6,7) by blast
qed

lemma release_tag_ok:
  assumes J: "\<forall>u. tag_ok s H u" and h: "(t, m) \<in> H"
  shows "fst (release s t m) = Returned () \<and> (\<forall>u. tag_ok (snd (release s t m)) (H - {(t, m)}) u)"
proof -
  let ?A = "{k. (t, k) \<in> H}" and ?q = "dict_get (pending_release s) t"
  let ?A' = "{k. (t, k) \<in> H - {(t, m)}}"
  have old: "tag_ok_at (map_of (tag_sequences s) t) (map_of (lowest_sequence s) t) ?q ?A"
    using J by (simp add: tag_ok_def)
  have mA: "m \<in> ?A" using h by simp
  obtain n where n: "map_of (tag_sequences s) t = Some n"
    using old mA by (cases "map_of (tag_sequences s) t") (auto simp: tag_ok_at_def)
  obtain l where l: "map_of (lowest_sequence s) t = Some l"
    using old n by (cases "map_of (lowest_sequence s) t") (simp_all add: tag_ok_at_def)
  have ok: "1 \<le> n" "l \<le> n" "\<forall>k \<in> ?A. l \<le> k \<and> k < n" "l < n \<longrightarrow> l \<in> ?A"
      "set ?q = {k. l < k \<and> k < n \<and> k \<notin> ?A}" "distinct ?q" "sorted (rev ?q)"
    using old n l by (simp_all add: tag_ok_at_def)
  have range: "l \<le> m" "m < n" using ok(3) mA by blast+
  text \<open>the other tags\<close>
  have frame: "tag_ok s' (H - {(t, m)}) u"
    if "u \<noteq> t" "map_of (tag_sequences s') u = map_of (tag_sequences s) u"
       "map_of (lowest_sequence s') u = map_of (lowest_sequence s) u"
       "dict_get (pending_release s') u = dict_get (pending_release s) u" for s' u
  proof -
    have "{k. (u, k) \<in> H - {(t, m)}} = {k. (u, k) \<in> H}" using that(1) by auto
    then have "tag_ok s' (H - {(t, m)}) u = tag_ok s H u"
      unfolding tag_ok_def using that(2,3,4) by simp
    then show ?thesis using J by simp
  qed
  show ?thesis
  proof (cases "l = m")
    case True
    obtain l' c' q' where d: "drain_queued (l + 1) (count s + 1) ?q = (l', c', q')"
      by (metis prod_cases3)
    define s' where "s' = s\<lparr>count := c',
        lowest_sequence := AList.update t l' (lowest_sequence s),
        pending_release := (case map_of (pending_release s) t of
                               None \<Rightarrow> pending_release s
                             | Some _ \<Rightarrow> AList.update t q' (pending_release s))\<rparr>"
    have rel: "release s t m = (Returned (), s')"
      using n l True d by (simp add: release_def s'_def)
    have absent: "map_of (pending_release s) t = None \<Longrightarrow> q' = []"
    proof -
      assume "map_of (pending_release s) t = None"
      then have "?q = []" by (simp add: dict_get_def)
      moreover have "drain_queued (l + 1) (count s + 1) [] = (l + 1, count s + 1, [])"
        by (subst drain_queued.simps) simp
      ultimately show "q' = []" using d by simp
    qed
    have q': "dict_get (pending_release s') t = q'"
      using absent by (cases "map_of (pending_release s) t")
        (simp_all add: s'_def dict_get_def AList.update_conv')
    have mem: "\<forall>k. k \<in> set ?q \<longleftrightarrow> l + 1 \<le> k \<and> k < n \<and> k \<notin> ?A'"
    proof
      fix k
      have "k \<in> set ?q \<longleftrightarrow> l < k \<and> k < n \<and> k \<notin> ?A" using ok(5) by simp
      also have "\<dots> \<longleftrightarrow> l + 1 \<le> k \<and> k < n \<and> k \<notin> ?A'" using True by auto
      finally show "k \<in> set ?q \<longleftrightarrow> l + 1 \<le> k \<and> k < n \<and> k \<notin> ?A'" .
    qed
    have b: "l + 1 \<le> n" using range True by simp
    have a: "\<forall>k \<in> ?A'. l + 1 \<le> k \<and> k < n"
    proof
      fix k assume "k \<in> ?A'"
      then have "k \<in> ?A" "k \<noteq> l" using True by auto
      then have "l \<le> k" "k < n" using ok(3) by blast+
      then show "l + 1 \<le> k \<and> k < n" using \<open>k \<noteq> l\<close> by simp
    qed
    note r = drain_queued_released[OF d mem ok(6,7) b a]
    have "tag_ok_at (Some n) (Some l') q' ?A'"
      using ok(1) r by (intro tag_ok_atI) blast+
    moreover have "map_of (tag_sequences s') t = Some n" "map_of (lowest_sequence s') t = Some l'"
      using n by (simp_all add: s'_def AList.update_conv')
    ultimately have t_ok: "tag_ok s' (H - {(t, m)}) t"
      unfolding tag_ok_def using q' by simp
    have "tag_ok s' (H - {(t, m)}) u" for u
    proof (cases "u = t")
      case True
      then show ?thesis using t_ok by simp
    next
      case False
      have "dict_get (pending_release s') u = dict_get (pending_release s) u"
        using False by (cases "map_of (pending_release s) t")
          (simp_all add: s'_def dict_get_def AList.update_conv')
      then show ?thesis using False
        by (intro frame) (simp_all add: s'_def AList.update_conv')
    qed
    then show ?thesis using rel by simp
  next
    case False
    then have lt: "l < m" using range by simp
    define s' where "s' = s\<lparr>pending_release :=
        AList.update t (rev (sort (?q @ [m]))) (pending_release s)\<rparr>"
    have rel: "release s t m = (Returned (), s')"
      using n l False lt range by (simp add: release_def s'_def)
    have q': "dict_get (pending_release s') t = rev (sort (?q @ [m]))"
      by (simp add: s'_def dict_get_def AList.update_conv')
    have notin: "m \<notin> set ?q" using ok(5) mA by simp
    have set': "\<forall>k. k \<in> set (rev (sort (?q @ [m]))) \<longleftrightarrow> l < k \<and> k < n \<and> k \<notin> ?A'"
    proof
      fix k
      have "k \<in> set (rev (sort (?q @ [m]))) \<longleftrightarrow> k = m \<or> k \<in> set ?q" by auto
      also have "\<dots> \<longleftrightarrow> k = m \<or> (l < k \<and> k < n \<and> k \<notin> ?A)" using ok(5) by simp
      also have "\<dots> \<longleftrightarrow> l < k \<and> k < n \<and> k \<notin> ?A'" using lt range(2) mA by auto
      finally show "k \<in> set (rev (sort (?q @ [m]))) \<longleftrightarrow> l < k \<and> k < n \<and> k \<notin> ?A'" .
    qed
    have dist': "distinct (rev (sort (?q @ [m])))" using ok(6) notin by simp
    have low': "l < n \<longrightarrow> l \<in> ?A'" using ok(4) False by auto
    have in': "\<forall>k \<in> ?A'. l \<le> k \<and> k < n" using ok(3) by blast
    have srt': "sorted (rev (rev (sort (?q @ [m]))))" by simp
    have "tag_ok_at (Some n) (Some l) (rev (sort (?q @ [m]))) ?A'"
      using ok(1,2) in' low' set' dist' srt' by (rule tag_ok_atI)
    moreover have "map_of (tag_sequences s') t = Some n" "map_of (lowest_sequence s') t = Some l"
      using n l by (simp_all add: s'_def)
    ultimately have t_ok: "tag_ok s' (H - {(t, m)}) t"
      unfolding tag_ok_def using q' by simp
    have "tag_ok s' (H - {(t, m)}) u" for u
    proof (cases "u = t")
      case True
      then show ?thesis using t_ok by simp
    next
      case False
      then show ?thesis
        by (intro frame) (simp_all add: s'_def dict_get_def AList.update_conv')
    qed
    then show ?thesis using rel by simp
  qed
qed

lemma snd_perform_acquire: "snd (perform s (Acquire t b)) = snd (acquire s t b)"
  by (simp add: case_prod_beta)

lemma snd_perform_release: "snd (perform s (Release t n)) = snd (release s t n)"
  by (simp add: case_prod_beta)

lemma held_after_run:
  "\<forall>u. tag_ok s H u \<Longrightarrow> held_after s H cs = Some H' \<Longrightarrow> \<forall>u. tag_ok (run s cs) H' u"
proof (induction cs arbitrary: s H)
  case Nil
  then show ?case by simp
next
  case (Cons c cs)
  show ?case
  proof (cases c)
    case (Acquire t b)
    obtain r s' where a: "acquire s t b = (r, s')" by (cases "acquire s t b")
    have run: "run s (c # cs) = run s' cs" using Acquire a by (simp add: case_prod_beta)
    show ?thesis
    proof (cases "\<exists>n. r = Returned n")
      case True
      then obtain n where r: "r = Returned n" by blast
      have "\<forall>u. tag_ok s' (insert (t, n) H) u"
        using acquire_tag_ok[OF Cons.prems(1) a[unfolded r]] by blast
      moreover have "held_after s' (insert (t, n) H) cs = Some H'"
        using Cons.prems(2) Acquire a r by simp
      ultimately show ?thesis unfolding run by (rule Cons.IH)
    next
      case False
      then have "s' = s" using acquire_not_returned[OF a] by blast
      moreover have "held_after s' H cs = Some H'"
        using Cons.prems(2) Acquire a False by (cases r) simp_all
      ultimately show ?thesis unfolding run using Cons.IH[of s H] Cons.prems(1) by simp
    qed
  next
    case (Release t m)
    have h: "(t, m) \<in> H" using Cons.prems(2) Release by (simp split: if_splits)
    have "\<forall>u. tag_ok (snd (release s t m)) (H - {(t, m)}) u"
      using release_tag_ok[OF Cons.prems(1) h] by blast
    moreover have "held_after (snd (release s t m)) (H - {(t, m)}) cs = Some H'"
      using Cons.prems(2) Release h by simp
    ultimately have "\<forall>u. tag_ok (run (snd (release s t m)) cs) H' u" by (rule Cons.IH)
    then show ?thesis using Release by (simp add: case_prod_beta)
  qed
qed

lemma tag_ok_drained:
  assumes "sem_inv C s" "\<forall>u. tag_ok s {} u" shows "drained s"
proof -
  have "map_of (lowest_sequence s) t = Some n" if "(t, n) \<in> set (tag_sequences s)" for t n
  proof -
    have d: "distinct (map fst (tag_sequences s))" using assms(1) by (simp add: sem_inv_def)
    have n: "map_of (tag_sequences s) t = Some n" using that d by simp
    have ok: "tag_ok_at (Some n) (map_of (lowest_sequence s) t)
               (dict_get (pending_release s) t) {}"
      using assms(2)[rule_format, of t] n by (simp add: tag_ok_def)
    then obtain l where l: "map_of (lowest_sequence s) t = Some l"
      by (cases "map_of (lowest_sequence s) t") (simp_all add: tag_ok_at_def)
    then have "l \<le> n" "\<not> l < n" using ok by (simp_all add: tag_ok_at_def)
    then show ?thesis using l by simp
  qed
  then show ?thesis by (auto simp: drained_def list_all_iff)
qed

lemma paired_run_drained:
  assumes "held_after (SlidingWindowSemaphore C) {} cs = Some {}"
  shows "drained (run (SlidingWindowSemaphore C) cs)"
proof -
  have "\<forall>u. tag_ok (SlidingWindowSemaphore C :: 'a sliding_window_semaphore) {} u"
    by (simp add: tag_ok_init)
  then have "\<forall>u. tag_ok (run (SlidingWindowSemaphore C) cs) {} u"
    using assms by (rule held_after_run)
  then show ?thesis using sem_inv_run[OF sem_inv_init] by (rule tag_ok_drained[rotated])
qed

text \<open>
  C3. In every state that a semaphore created with count \<open>C\<close> reaches by any sequence of
  \<^verbatim>\<open>acquire\<close> and \<^verbatim>\<open>release\<close> calls, the sum over the tags (each tag counted once, and
  each with a lowest sequence number) of the next sequence number less the lowest
  unreleased one equals \<open>C\<close> less the current count; so once every tag is fully drained
  \<^verbatim>\<open>current_count()\<close> is \<open>C\<close> again. A sequence of calls that pairs every acquired
  sequence number with exactly one release ends with every tag fully drained, and so
  with \<^verbatim>\<open>current_count()\<close> at \<open>C\<close>.
\<close>

theorem count_conservation:
  assumes "s = run (SlidingWindowSemaphore C) cs"
  shows "map fst (lowest_sequence s) = map fst (tag_sequences s) \<and>
         distinct (map fst (tag_sequences s)) \<and>
         outstanding s = C - current_count s \<and>
         (drained s \<longrightarrow> current_count s = C) \<and>
         (held_after (SlidingWindowSemaphore C) {} cs = Some {} \<longrightarrow>
            drained s \<and> current_count s = C)"
proof -
  have inv: "sem_inv C s" using assms sem_inv_run[OF sem_inv_init] by simp
  then have out: "outstanding s = C - count s" by (rule sem_inv_outstanding)
  have d: "drained s \<Longrightarrow> count s = C" using out drained_outstanding[of s] by simp
  have p: "held_after (SlidingWindowSemaphore C) {} cs = Some {} \<Longrightarrow> drained s"
    using assms paired_run_drained by blast
  show ?thesis using inv out d p
    by (auto simp: sem_inv_def current_count_def)
qed

theorem count_conservation_witness:
  "outstanding (run (SlidingWindowSemaphore 3)
      [Acquire ''a'' False, Acquire ''b'' False, Acquire ''a'' False, Release ''a'' 1]) = 3 - 0 \<and>
   held_after (SlidingWindowSemaphore 3) {}
      [Acquire ''a'' False, Acquire ''b'' False, Acquire ''a'' False,
       Release ''a'' 1, Release ''b'' 0, Release ''a'' 0] = Some {} \<and>
   drained (run (SlidingWindowSemaphore 3)
      [Acquire ''a'' False, Acquire ''b'' False, Acquire ''a'' False,
       Release ''a'' 1, Release ''b'' 0, Release ''a'' 0]) \<and>
   current_count (run (SlidingWindowSemaphore 3)
      [Acquire ''a'' False, Acquire ''b'' False, Acquire ''a'' False,
       Release ''a'' 1, Release ''b'' 0, Release ''a'' 0]) = 3"
  using count_conservation [of _ 3
      "[Acquire ''a'' False, Acquire ''b'' False, Acquire ''a'' False, Release ''a'' 1]", OF refl]
    count_conservation [of _ 3
      "[Acquire ''a'' False, Acquire ''b'' False, Acquire ''a'' False,
       Release ''a'' 1, Release ''b'' 0, Release ''a'' 0]", OF refl]
  by (simp add: semaphore_eval outstanding_def drained_def)

section \<open>Sequence numbers of a tag\<close>

lemma acquire_returned:
  assumes "acquire s tag blocking = (Returned n, s')"
  shows "n = next_sequence s tag \<and>
         next_sequence s' tag = next_sequence s tag + 1 \<and>
         (\<forall>t. t \<noteq> tag \<longrightarrow> next_sequence s' t = next_sequence s t) \<and>
         count s' = count s - 1 \<and>
         (map_of (tag_sequences s) tag = None \<longrightarrow> n = 0 \<and> map_of (lowest_sequence s') tag = Some 0)"
  using assms
  by (auto simp: acquire_def defaultdict_getitem_def next_sequence_def AList.update_conv'
      split: if_splits option.splits)

lemma release_next_sequence: "next_sequence (snd (release s tag n)) t = next_sequence s t"
  by (auto simp: release_def next_sequence_def split: option.splits prod.splits)

lemma acquired_from:
  "acquired t s cs = map (\<lambda>i. next_sequence s t + int i) [0..<length (acquired t s cs)]"
proof (induction cs arbitrary: s)
  case Nil
  then show ?case by simp
next
  case (Cons c cs)
  show ?case
  proof (cases c)
    case (Release tag n)
    then show ?thesis using Cons.IH[of "snd (release s tag n)"]
      by (simp add: release_next_sequence)
  next
    case (Acquire tag blocking)
    obtain r s' where a: "acquire s tag blocking = (r, s')" by (cases "acquire s tag blocking")
    show ?thesis
    proof (cases r)
      case (Returned n)
      note acq = acquire_returned[OF a[unfolded Returned]]
      show ?thesis
      proof (cases "tag = t")
        case True
        have "acquired t s (c # cs) = n # acquired t s' cs"
          using Acquire a Returned True by simp
        also have "acquired t s' cs = map (\<lambda>i. next_sequence s' t + int i) [0..<length (acquired t s' cs)]"
          by (rule Cons.IH)
        also have "n # map (\<lambda>i. next_sequence s' t + int i) [0..<length (acquired t s' cs)] =
            map (\<lambda>i. next_sequence s t + int i) [0..<Suc (length (acquired t s' cs))]"
          using acq True by (simp add: upt_rec[of 0] map_Suc_upt[symmetric] del: upt_Suc)
        finally show ?thesis using Acquire a Returned True by simp
      next
        case False
        then show ?thesis using Acquire a Returned acq Cons.IH[of s'] by simp
      qed
    next
      case (Raised e)
      then have "s' = s" using a by (auto dest: acquire_raised_unchanged)
      then show ?thesis using Acquire a Raised Cons.IH[of s] by simp
    next
      case Blocked
      then have "s' = s" using a by (auto simp: acquire_def split: if_splits prod.splits)
      then show ?thesis using Acquire a Blocked Cons.IH[of s] by simp
    qed
  qed
qed

lemma acquire_returns_when_free:
  "count s \<noteq> 0 \<Longrightarrow> \<exists>s'. acquire s tag blocking = (Returned (next_sequence s tag), s')"
  by (simp add: acquire_def defaultdict_getitem_def next_sequence_def split: option.splits)

lemma acquire_when_exhausted:
  "count s = 0 \<Longrightarrow>
     acquire s tag False = (Raised NoResourcesAvailable, s) \<and> acquire s tag True = (Blocked, s)"
  by (simp add: acquire_def)

lemma release_count_mono: "count s \<le> count (snd (release s tag n))"
proof -
  obtain l' c' q' where d: "drain_queued (n + 1) (count s + 1) (dict_get (pending_release s) tag) = (l', c', q')"
    by (metis prod_cases3)
  have "count s + 1 \<le> c'" using d by (rule drain_queued_mono)
  then show ?thesis using d
    by (auto simp: release_def split: option.splits)
qed

lemma acquired_length:
  "int (length (filter is_acquire cs)) \<le> count s \<Longrightarrow>
     length (acquired t s cs) = length (filter (is_acquire_of t) cs)"
proof (induction cs arbitrary: s)
  case Nil
  then show ?case by simp
next
  case (Cons c cs)
  show ?case
  proof (cases c)
    case (Acquire tag blocking)
    then have free: "count s \<noteq> 0" using Cons.prems by auto
    then obtain s' where a: "acquire s tag blocking = (Returned (next_sequence s tag), s')"
      using acquire_returns_when_free[of s tag blocking] by auto
    have "count s' = count s - 1" using acquire_returned[OF a] by simp
    then have "int (length (filter is_acquire cs)) \<le> count s'"
      using Cons.prems Acquire by simp
    then have "length (acquired t s' cs) = length (filter (is_acquire_of t) cs)"
      by (rule Cons.IH)
    then show ?thesis using Acquire a by simp
  next
    case (Release tag n)
    have "int (length (filter is_acquire cs)) \<le> count (snd (release s tag n))"
      using Cons.prems Release release_count_mono[of s tag n] by simp
    then have "length (acquired t (snd (release s tag n)) cs) =
               length (filter (is_acquire_of t) cs)"
      by (rule Cons.IH)
    then show ?thesis using Release by simp
  qed
qed

text \<open>
  C7. An \<^verbatim>\<open>acquire\<close> returns, blocking or not, whenever the count is not 0, and what it
  returns is the tag's next sequence number, which it increments, decrementing the
  count; for a tag that the semaphore has not seen it returns 0 and records 0 as the
  tag's lowest sequence number. With the count at 0 it raises when not blocking and
  waits when blocking. So the sequence numbers that the \<^verbatim>\<open>acquire\<close> calls for a tag return,
  in any sequence of calls on a new semaphore (calls for other tags, failing calls and
  releases among them), are 0, 1, 2, ... in order; and when the sequence has no more
  \<^verbatim>\<open>acquire\<close> calls than the initial count, every one of them returns, so that the
  \<open>k\<close> calls for the tag return 0 to \<open>k - 1\<close>.
\<close>

theorem acquire_sequencing:
  "acquired tag (SlidingWindowSemaphore C) cs =
     map int [0..<length (acquired tag (SlidingWindowSemaphore C) cs)] \<and>
   (int (length (filter is_acquire cs)) \<le> C \<longrightarrow>
      acquired tag (SlidingWindowSemaphore C) cs =
        map int [0..<length (filter (is_acquire_of tag) cs)]) \<and>
   (count s \<noteq> 0 \<longrightarrow>
      (\<exists>s'. acquire s tag blocking = (Returned (next_sequence s tag), s'))) \<and>
   (count s \<noteq> 0 \<and> map_of (tag_sequences s) tag = None \<longrightarrow>
      (\<exists>s'. acquire s tag blocking = (Returned 0, s') \<and>
            map_of (lowest_sequence s') tag = Some 0)) \<and>
   (count s = 0 \<longrightarrow>
      acquire s tag False = (Raised NoResourcesAvailable, s) \<and>
      acquire s tag True = (Blocked, s)) \<and>
   (acquire s tag blocking = (Returned n, s') \<longrightarrow>
      n = next_sequence s tag \<and>
      next_sequence s' tag = next_sequence s tag + 1 \<and>
      count s' = count s - 1 \<and>
      (map_of (tag_sequences s) tag = None \<longrightarrow>
         n = 0 \<and> map_of (lowest_sequence s') tag = Some 0))"
proof -
  have z: "next_sequence (SlidingWindowSemaphore C) tag = 0"
    by (simp add: next_sequence_def SlidingWindowSemaphore_def)
  then have c1: "acquired tag (SlidingWindowSemaphore C) cs =
     map int [0..<length (acquired tag (SlidingWindowSemaphore C) cs)]"
    using acquired_from[of tag "SlidingWindowSemaphore C" cs] by simp
  have c2: "int (length (filter is_acquire cs)) \<le> C \<longrightarrow>
      acquired tag (SlidingWindowSemaphore C) cs =
        map int [0..<length (filter (is_acquire_of tag) cs)]"
  proof
    assume "int (length (filter is_acquire cs)) \<le> C"
    then have "length (acquired tag (SlidingWindowSemaphore C) cs) =
               length (filter (is_acquire_of tag) cs)"
      by (intro acquired_length) (simp add: SlidingWindowSemaphore_def)
    then show "acquired tag (SlidingWindowSemaphore C) cs =
        map int [0..<length (filter (is_acquire_of tag) cs)]"
      using c1 by simp
  qed
  have c3: "count s \<noteq> 0 \<longrightarrow>
      (\<exists>s'. acquire s tag blocking = (Returned (next_sequence s tag), s'))"
    using acquire_returns_when_free[of s tag blocking] by simp
  have c4: "count s \<noteq> 0 \<and> map_of (tag_sequences s) tag = None \<longrightarrow>
      (\<exists>s'. acquire s tag blocking = (Returned 0, s') \<and>
            map_of (lowest_sequence s') tag = Some 0)"
  proof
    assume f: "count s \<noteq> 0 \<and> map_of (tag_sequences s) tag = None"
    then obtain s' where a: "acquire s tag blocking = (Returned (next_sequence s tag), s')"
      using acquire_returns_when_free[of s tag blocking] by auto
    have "next_sequence s tag = 0" using f by (simp add: next_sequence_def)
    moreover have "map_of (lowest_sequence s') tag = Some 0"
      using acquire_returned[OF a] f by simp
    ultimately show "\<exists>s'. acquire s tag blocking = (Returned 0, s') \<and>
            map_of (lowest_sequence s') tag = Some 0"
      using a by simp
  qed
  have c5: "count s = 0 \<longrightarrow>
      acquire s tag False = (Raised NoResourcesAvailable, s) \<and>
      acquire s tag True = (Blocked, s)"
    using acquire_when_exhausted[of s tag] by simp
  have c6: "acquire s tag blocking = (Returned n, s') \<longrightarrow>
      n = next_sequence s tag \<and>
      next_sequence s' tag = next_sequence s tag + 1 \<and>
      count s' = count s - 1 \<and>
      (map_of (tag_sequences s) tag = None \<longrightarrow>
         n = 0 \<and> map_of (lowest_sequence s') tag = Some 0)"
  proof
    assume "acquire s tag blocking = (Returned n, s')"
    from acquire_returned[OF this]
    show "n = next_sequence s tag \<and>
      next_sequence s' tag = next_sequence s tag + 1 \<and>
      count s' = count s - 1 \<and>
      (map_of (tag_sequences s) tag = None \<longrightarrow>
         n = 0 \<and> map_of (lowest_sequence s') tag = Some 0)"
      by auto
  qed
  show ?thesis by (intro conjI c1 c2 c3 c4 c5 c6)
qed

theorem acquire_sequencing_witness:
  "acquired ''a'' (SlidingWindowSemaphore 4)
     [Acquire ''a'' True, Acquire ''b'' False, Release ''a'' 0, Acquire ''a'' False,
      Acquire ''b'' True, Acquire ''a'' True, Acquire ''a'' False, Acquire ''a'' True] =
     [0, 1, 2] \<and>
   int (length (filter is_acquire
     [Acquire ''a'' True, Acquire ''b'' False, Release ''a'' 0, Acquire ''a'' True])) \<le> 4 \<and>
   acquired ''a'' (SlidingWindowSemaphore 4)
     [Acquire ''a'' True, Acquire ''b'' False, Release ''a'' 0, Acquire ''a'' True] = [0, 1] \<and>
   count (SlidingWindowSemaphore 4 :: string sliding_window_semaphore) \<noteq> 0 \<and>
   map_of (tag_sequences (SlidingWindowSemaphore 4 :: string sliding_window_semaphore)) ''a'' = None \<and>
   acquire (SlidingWindowSemaphore 4) ''a'' True =
     (Returned 0,
      \<lparr>count = 3, tag_sequences = [(''a'', 1)], lowest_sequence = [(''a'', 0)],
       pending_release = []\<rparr>) \<and>
   next_sequence (SlidingWindowSemaphore 4) ''a'' = 0 \<and>
   next_sequence \<lparr>count = 3, tag_sequences = [(''a'', 1)], lowest_sequence = [(''a'', 0)],
       pending_release = []\<rparr> ''a'' = 1 \<and>
   acquire \<lparr>count = 0, tag_sequences = [(''a'', 1)], lowest_sequence = [(''a'', 0)],
       pending_release = []\<rparr> ''a'' True =
     (Blocked, \<lparr>count = 0, tag_sequences = [(''a'', 1)], lowest_sequence = [(''a'', 0)],
       pending_release = []\<rparr>)"
  using acquire_sequencing [of "''a''" 4
     "[Acquire ''a'' True, Acquire ''b'' False, Release ''a'' 0, Acquire ''a'' False,
      Acquire ''b'' True, Acquire ''a'' True, Acquire ''a'' False, Acquire ''a'' True]"
     "SlidingWindowSemaphore 4" True 0
     "\<lparr>count = 3, tag_sequences = [(''a'', 1)], lowest_sequence = [(''a'', 0)],
       pending_release = []\<rparr>"]
   acquire_sequencing [of "''a''" 4
     "[Acquire ''a'' True, Acquire ''b'' False, Release ''a'' 0, Acquire ''a'' True]"
     "\<lparr>count = 0, tag_sequences = [(''a'', 1)], lowest_sequence = [(''a'', 0)],
       pending_release = []\<rparr>" True 0
     "\<lparr>count = 0, tag_sequences = [(''a'', 1)], lowest_sequence = [(''a'', 0)],
       pending_release = []\<rparr>"]
  by (simp add: semaphore_eval next_sequence_def)

section \<open>Release in order and out of order\<close>











section \<open>Which callbacks a call invokes\<close>

lemma rfc_read_calls:
  "rfc_read c amount = (Inr data, c', calls) \<Longrightarrow>
     calls = (if rfc_callbacks_enabled c \<and> data \<noteq> []
              then map (\<lambda>cb. (cb, int (length data))) (rfc_callbacks c) else [])"
  by (auto simp: rfc_read_def Let_def invoke_progress_callbacks_def
      split: prod.splits sum.splits if_splits)

lemma srp_read_calls:
  "srp_read r amount = (Inr data, r', calls) \<Longrightarrow>
     calls = (if data \<noteq> [] then map (\<lambda>cb. (cb, int (length data))) (srp_callbacks r) else [])"
  by (auto simp: srp_read_def invoke_progress_callbacks_def
      split: prod.splits sum.splits if_splits)

text \<open>
  C9. \<^verbatim>\<open>invoke_progress_callbacks\<close> calls no callback when the amount is 0 and calls every
  callback, in the order of the list, with the amount when it is not 0, negative amounts
  included. So a \<^verbatim>\<open>read\<close> of a \<^verbatim>\<open>ReadFileChunk\<close> or of a \<^verbatim>\<open>StreamReaderProgress\<close> that
  returns no bytes calls no callback, and one that returns \<open>n > 0\<close> bytes calls every
  callback with \<open>n\<close> (for the chunk, when callbacks are enabled).
\<close>

theorem callbacks_invoked_iff_delta_nonzero:
  "(delta = 0 \<longrightarrow> invoke_progress_callbacks callbacks delta = []) \<and>
   (delta \<noteq> 0 \<longrightarrow>
      invoke_progress_callbacks callbacks delta = map (\<lambda>cb. (cb, delta)) callbacks) \<and>
   (rfc_read c amount = (Inr data, c', calls) \<longrightarrow>
      (data = [] \<longrightarrow> calls = []) \<and>
      (data \<noteq> [] \<and> rfc_callbacks_enabled c \<longrightarrow>
         calls = map (\<lambda>cb. (cb, int (length data))) (rfc_callbacks c))) \<and>
   (srp_read r amount' = (Inr data', r', calls') \<longrightarrow>
      (data' = [] \<longrightarrow> calls' = []) \<and>
      (data' \<noteq> [] \<longrightarrow> calls' = map (\<lambda>cb. (cb, int (length data'))) (srp_callbacks r)))"
  using rfc_read_calls[of c amount data c' calls] srp_read_calls[of r amount' data' r' calls']
  by (auto simp: invoke_progress_callbacks_def)

theorem callbacks_invoked_iff_delta_nonzero_witness:
  "invoke_progress_callbacks [''p'', ''q''] 0 = [] \<and>
   invoke_progress_callbacks [''p'', ''q''] (- 2) = [(''p'', - 2), (''q'', - 2)] \<and>
   rfc_read
     \<lparr>rfc_fileobj = \<lparr>content = ''abc'', pos = 0, closed = False\<rparr>, rfc_start_byte = 0,
      rfc_size = 2, rfc_amount_read = 0, rfc_callbacks = [''p'', ''q''],
      rfc_callbacks_enabled = True\<rparr> None =
     (Inr ''ab'',
      \<lparr>rfc_fileobj = \<lparr>content = ''abc'', pos = 2, closed = False\<rparr>, rfc_start_byte = 0,
       rfc_size = 2, rfc_amount_read = 2, rfc_callbacks = [''p'', ''q''],
       rfc_callbacks_enabled = True\<rparr>,
      [(''p'', 2), (''q'', 2)]) \<and>
   rfc_read
     \<lparr>rfc_fileobj = \<lparr>content = ''abc'', pos = 2, closed = False\<rparr>, rfc_start_byte = 0,
      rfc_size = 2, rfc_amount_read = 2, rfc_callbacks = [''p'', ''q''],
      rfc_callbacks_enabled = True\<rparr> None =
     (Inr [],
      \<lparr>rfc_fileobj = \<lparr>content = ''abc'', pos = 2, closed = False\<rparr>, rfc_start_byte = 0,
       rfc_size = 2, rfc_amount_read = 2, rfc_callbacks = [''p'', ''q''],
       rfc_callbacks_enabled = True\<rparr>,
      []) \<and>
   srp_read \<lparr>srp_stream = \<lparr>content = ''abc'', pos = 0, closed = False\<rparr>,
             srp_callbacks = [''p'', ''q'']\<rparr> (Some 1) =
     (Inr ''a'',
      \<lparr>srp_stream = \<lparr>content = ''abc'', pos = 1, closed = False\<rparr>,
       srp_callbacks = [''p'', ''q'']\<rparr>,
      [(''p'', 1), (''q'', 1)])"
  using callbacks_invoked_iff_delta_nonzero [of "- 2" "[''p'', ''q'']"
     "\<lparr>rfc_fileobj = \<lparr>content = ''abc'', pos = 0, closed = False\<rparr>, rfc_start_byte = 0,
      rfc_size = 2, rfc_amount_read = 0, rfc_callbacks = [''p'', ''q''],
      rfc_callbacks_enabled = True\<rparr>" None "''ab''"
     "\<lparr>rfc_fileobj = \<lparr>content = ''abc'', pos = 2, closed = False\<rparr>, rfc_start_byte = 0,
       rfc_size = 2, rfc_amount_read = 2, rfc_callbacks = [''p'', ''q''],
       rfc_callbacks_enabled = True\<rparr>" "[(''p'', 2), (''q'', 2)]"
     "\<lparr>srp_stream = \<lparr>content = ''abc'', pos = 0, closed = False\<rparr>,
             srp_callbacks = [''p'', ''q'']\<rparr>" "Some 1" "''a''"
     "\<lparr>srp_stream = \<lparr>content = ''abc'', pos = 1, closed = False\<rparr>,
       srp_callbacks = [''p'', ''q'']\<rparr>" "[(''p'', 1), (''q'', 1)]"]
    callbacks_invoked_iff_delta_nonzero [of 0 "[''p'', ''q'']"
     "\<lparr>rfc_fileobj = \<lparr>content = ''abc'', pos = 2, closed = False\<rparr>, rfc_start_byte = 0,
      rfc_size = 2, rfc_amount_read = 2, rfc_callbacks = [''p'', ''q''],
      rfc_callbacks_enabled = True\<rparr>" None "[]"
     "\<lparr>rfc_fileobj = \<lparr>content = ''abc'', pos = 2, closed = False\<rparr>, rfc_start_byte = 0,
       rfc_size = 2, rfc_amount_read = 2, rfc_callbacks = [''p'', ''q''],
       rfc_callbacks_enabled = True\<rparr>" "[]"]
  by (simp add: chunk_eval srp_read_def)

section \<open>The cursor of a chunk\<close>

lemma file_read_length:
  "file_read f (Some n) = (Inr data, f') \<Longrightarrow> 0 \<le> n \<Longrightarrow> int (length data) \<le> n"
  by (auto simp: file_read_def Let_def split: if_splits)

lemma rfc_read_in_window:
  assumes "cursor_in_window c" "within_window (rfc_size c) (Read amount)"
  shows "cursor_in_window (fst (snd (rfc_read c amount))) \<and>
         rfc_size (fst (snd (rfc_read c amount))) = rfc_size c"
proof (cases amount)
  case None
  then show ?thesis using assms
    by (auto simp: rfc_read_def cursor_in_window_def file_read_def Let_def split: if_splits)
next
  case (Some a)
  then show ?thesis using assms
    by (auto simp: rfc_read_def cursor_in_window_def file_read_def Let_def min_def split: if_splits)
qed

lemma rfc_seek_in_window:
  assumes "cursor_in_window c" "within_window (rfc_size c) (Seek offset)"
  shows "cursor_in_window (fst (snd (rfc_seek c offset))) \<and>
         rfc_size (fst (snd (rfc_seek c offset))) = rfc_size c"
  using assms
  by (auto simp: rfc_seek_def cursor_in_window_def file_seek_def split: if_splits)

lemma rfc_perform_in_window:
  assumes "cursor_in_window c" "within_window (rfc_size c) x"
  shows "cursor_in_window (fst (rfc_perform c x)) \<and> rfc_size (fst (rfc_perform c x)) = rfc_size c"
proof (cases x)
  case (Read amount)
  then show ?thesis using assms rfc_read_in_window[of c amount] by simp
next
  case (Seek offset)
  then show ?thesis using assms rfc_seek_in_window[of c offset] by simp
qed (use assms in \<open>auto simp: cursor_in_window_def enable_callback_def disable_callback_def rfc_close_def\<close>)

lemma rfc_run_in_window:
  "cursor_in_window c \<Longrightarrow> list_all (within_window (rfc_size c)) xs \<Longrightarrow>
     cursor_in_window (fst (rfc_run c xs)) \<and> rfc_size (fst (rfc_run c xs)) = rfc_size c"
proof (induction xs arbitrary: c)
  case Nil
  then show ?case by simp
next
  case (Cons x xs)
  then have p: "cursor_in_window (fst (rfc_perform c x))" "rfc_size (fst (rfc_perform c x)) = rfc_size c"
    using rfc_perform_in_window[of c x] by simp_all
  then have "cursor_in_window (fst (rfc_run (fst (rfc_perform c x)) xs)) \<and>
             rfc_size (fst (rfc_run (fst (rfc_perform c x)) xs)) = rfc_size c"
    using Cons.IH[of "fst (rfc_perform c x)"] Cons.prems by simp
  then show ?case by (simp add: case_prod_beta Let_def)
qed

text \<open>
  C4, as amended. For a \<^verbatim>\<open>ReadFileChunk\<close> whose size is not negative, after any sequence of
  calls in which every \<^verbatim>\<open>read\<close> has no amount or a non-negative one and every \<^verbatim>\<open>seek\<close>
  goes to an offset from 0 to the size, \<^verbatim>\<open>tell()\<close> is at least 0 and at most the size.
  Every prefix of such a sequence is such a sequence, so this holds at every point.
\<close>

theorem cursor_within_window:
  assumes "ReadFileChunk f chunk_size full_file_size callbacks enable_callbacks = Inr c"
      and "0 \<le> rfc_size c"
      and "list_all (within_window (rfc_size c)) xs"
  shows "0 \<le> rfc_tell (fst (rfc_run c xs)) \<and>
         rfc_tell (fst (rfc_run c xs)) \<le> rfc_size (fst (rfc_run c xs))"
proof -
  have "rfc_amount_read c = 0" using assms(1)
    by (auto simp: ReadFileChunk_def split: sum.splits)
  then have "cursor_in_window c" using assms(2) by (simp add: cursor_in_window_def)
  then show ?thesis using rfc_run_in_window[OF _ assms(3)]
    by (simp add: cursor_in_window_def rfc_tell_def)
qed

theorem cursor_within_window_witness:
  "ReadFileChunk \<lparr>content = ''onetwothree'', pos = 3, closed = False\<rparr> 4 11 None True =
     Inr
       \<lparr>rfc_fileobj = \<lparr>content = ''onetwothree'', pos = 3, closed = False\<rparr>,
        rfc_start_byte = 3, rfc_size = 4, rfc_amount_read = 0, rfc_callbacks = [],
        rfc_callbacks_enabled = True\<rparr> \<and>
   list_all (within_window 4) [Read (Some 1), Seek 4, Read None, Seek 0, Read None] \<and>
   rfc_tell (fst (rfc_run
       \<lparr>rfc_fileobj = \<lparr>content = ''onetwothree'', pos = 3, closed = False\<rparr>,
        rfc_start_byte = 3, rfc_size = 4, rfc_amount_read = 0, rfc_callbacks = [],
        rfc_callbacks_enabled = True\<rparr>
       [Read (Some 1), Seek 4, Read None, Seek 0, Read None])) = 4"
  using cursor_within_window [of
     "\<lparr>content = ''onetwothree'', pos = 3, closed = False\<rparr>" 4 11 None True
     "\<lparr>rfc_fileobj = \<lparr>content = ''onetwothree'', pos = 3, closed = False\<rparr>,
        rfc_start_byte = 3, rfc_size = 4, rfc_amount_read = 0, rfc_callbacks = [],
        rfc_callbacks_enabled = True\<rparr>"
     "[Read (Some 1), Seek 4, Read None, Seek 0, Read None]"]
  by (simp add: chunk_eval)

text \<open>
  As stated, for any sequence of reads and seeks, C4 fails: \<^verbatim>\<open>seek\<close> stores the offset it
  is given, so on a chunk of size 4 \<^verbatim>\<open>seek(5)\<close> leaves \<^verbatim>\<open>tell()\<close> at 5.
\<close>

theorem cursor_within_window_counterexample:
  "ReadFileChunk \<lparr>content = ''onetwothree'', pos = 3, closed = False\<rparr> 4 11 None True =
     Inr
       \<lparr>rfc_fileobj = \<lparr>content = ''onetwothree'', pos = 3, closed = False\<rparr>,
        rfc_start_byte = 3, rfc_size = 4, rfc_amount_read = 0, rfc_callbacks = [],
        rfc_callbacks_enabled = True\<rparr> \<and>
   rfc_tell (fst (rfc_run
       \<lparr>rfc_fileobj = \<lparr>content = ''onetwothree'', pos = 3, closed = False\<rparr>,
        rfc_start_byte = 3, rfc_size = 4, rfc_amount_read = 0, rfc_callbacks = [],
        rfc_callbacks_enabled = True\<rparr> [Seek 5])) = 5 \<and>
   \<not> (rfc_tell (fst (rfc_run
       \<lparr>rfc_fileobj = \<lparr>content = ''onetwothree'', pos = 3, closed = False\<rparr>,
        rfc_start_byte = 3, rfc_size = 4, rfc_amount_read = 0, rfc_callbacks = [],
        rfc_callbacks_enabled = True\<rparr> [Seek 5]))
      \<le> rfc_size (fst (rfc_run
       \<lparr>rfc_fileobj = \<lparr>content = ''onetwothree'', pos = 3, closed = False\<rparr>,
        rfc_start_byte = 3, rfc_size = 4, rfc_amount_read = 0, rfc_callbacks = [],
        rfc_callbacks_enabled = True\<rparr> [Seek 5])))"
  by (simp add: chunk_eval)

section \<open>Callbacks of a seek\<close>

lemma rfc_seek_returned:
  assumes "\<not> closed (rfc_fileobj c)" "0 \<le> rfc_start_byte c + offset"
  shows "rfc_seek c offset =
           (Inr (),
            c\<lparr>rfc_fileobj := (rfc_fileobj c)\<lparr>pos := nat (rfc_start_byte c + offset)\<rparr>,
              rfc_amount_read := offset\<rparr>,
            if rfc_callbacks_enabled c
            then invoke_progress_callbacks (rfc_callbacks c) (offset - rfc_amount_read c)
            else [])"
  using assms by (simp add: rfc_seek_def file_seek_def)

lemma read_seek_read:
  assumes "ReadFileChunk f chunk_size full_file_size (Some [cb]) True = Inr c"
      and "pos f = 0" "2 \<le> length (content f)" "2 \<le> rfc_size c"
  shows "snd (rfc_run c [Read (Some 2), Seek 0, Read (Some 2)]) = [(cb, 2), (cb, - 2), (cb, 2)]"
proof -
  have c: "rfc_fileobj c = f" "rfc_start_byte c = 0" "rfc_amount_read c = 0"
      "rfc_callbacks c = [cb]" "rfc_callbacks_enabled c" "\<not> closed f"
    using assms(1,2)
    by (auto simp: ReadFileChunk_def file_tell_def split: if_splits)
  have t: "length (take 2 (content f)) = 2" "take 2 (content f) \<noteq> []" using assms(3) by auto
  show ?thesis using c t assms(2,3,4)
    by (simp add: rfc_read_def rfc_seek_def file_read_def file_seek_def
        invoke_progress_callbacks_def Let_def min_absorb2)
qed

text \<open>
  C5, as amended. With callbacks enabled, on an open file and with a target that is not
  before the beginning of the file, \<^verbatim>\<open>seek(offset)\<close> returns, calls every callback in order
  with \<^verbatim>\<open>offset - cursor\<close> when that difference is not 0 and no callback when it is 0, and
  leaves the cursor at \<^verbatim>\<open>offset\<close>. On a chunk that starts at byte 0 of a file with at least
  2 bytes, with a size of at least 2 and one callback, reading 2 bytes, seeking to 0 and
  reading 2 bytes calls the callback with 2, -2 and 2.
\<close>

theorem seek_reports_signed_delta:
  "(rfc_callbacks_enabled c \<and> \<not> closed (rfc_fileobj c) \<and> 0 \<le> rfc_start_byte c + offset \<longrightarrow>
      (\<exists>c'. rfc_seek c offset =
         (Inr (), c',
          if offset - rfc_tell c = 0 then []
          else map (\<lambda>cb. (cb, offset - rfc_tell c)) (rfc_callbacks c)) \<and>
        rfc_tell c' = offset)) \<and>
   (ReadFileChunk f chunk_size full_file_size (Some [cb]) True = Inr c0 \<and>
    pos f = 0 \<and> 2 \<le> length (content f) \<and> 2 \<le> rfc_size c0 \<longrightarrow>
      snd (rfc_run c0 [Read (Some 2), Seek 0, Read (Some 2)]) = [(cb, 2), (cb, - 2), (cb, 2)])"
  using rfc_seek_returned[of c offset] read_seek_read[of f chunk_size full_file_size cb c0]
  by (auto simp: invoke_progress_callbacks_def rfc_tell_def)

theorem seek_reports_signed_delta_witness:
  "rfc_seek
     \<lparr>rfc_fileobj = \<lparr>content = ''abc'', pos = 2, closed = False\<rparr>, rfc_start_byte = 0,
      rfc_size = 3, rfc_amount_read = 2, rfc_callbacks = [''p'', ''q''],
      rfc_callbacks_enabled = True\<rparr> 0 =
     (Inr (),
      \<lparr>rfc_fileobj = \<lparr>content = ''abc'', pos = 0, closed = False\<rparr>, rfc_start_byte = 0,
       rfc_size = 3, rfc_amount_read = 0, rfc_callbacks = [''p'', ''q''],
       rfc_callbacks_enabled = True\<rparr>,
      [(''p'', - 2), (''q'', - 2)]) \<and>
   ReadFileChunk \<lparr>content = ''abc'', pos = 0, closed = False\<rparr> 3 3 (Some [''p'']) True =
     Inr
       \<lparr>rfc_fileobj = \<lparr>content = ''abc'', pos = 0, closed = False\<rparr>, rfc_start_byte = 0,
        rfc_size = 3, rfc_amount_read = 0, rfc_callbacks = [''p''],
        rfc_callbacks_enabled = True\<rparr> \<and>
   map snd (snd (rfc_run
       \<lparr>rfc_fileobj = \<lparr>content = ''abc'', pos = 0, closed = False\<rparr>, rfc_start_byte = 0,
        rfc_size = 3, rfc_amount_read = 0, rfc_callbacks = [''p''],
        rfc_callbacks_enabled = True\<rparr> [Read (Some 2), Seek 0, Read (Some 2)])) = [2, - 2, 2]"
  using seek_reports_signed_delta [of
     "\<lparr>rfc_fileobj = \<lparr>content = ''abc'', pos = 2, closed = False\<rparr>, rfc_start_byte = 0,
      rfc_size = 3, rfc_amount_read = 2, rfc_callbacks = [''p'', ''q''],
      rfc_callbacks_enabled = True\<rparr>" 0
     "\<lparr>content = ''abc'', pos = 0, closed = False\<rparr>" 3 3 "''p''"
     "\<lparr>rfc_fileobj = \<lparr>content = ''abc'', pos = 0, closed = False\<rparr>, rfc_start_byte = 0,
        rfc_size = 3, rfc_amount_read = 0, rfc_callbacks = [''p''],
        rfc_callbacks_enabled = True\<rparr>"]
  by (simp add: chunk_eval)

text \<open>
  As stated, for every offset, C5 fails when the offset is the cursor: the difference is 0
  and \<^verbatim>\<open>invoke_progress_callbacks\<close> calls nothing, where the claim has every callback
  called with 0.
\<close>

theorem seek_reports_signed_delta_counterexample:
  "rfc_seek
     \<lparr>rfc_fileobj = \<lparr>content = ''abc'', pos = 0, closed = False\<rparr>, rfc_start_byte = 0,
      rfc_size = 3, rfc_amount_read = 0, rfc_callbacks = [''p''],
      rfc_callbacks_enabled = True\<rparr> 0 =
     (Inr (),
      \<lparr>rfc_fileobj = \<lparr>content = ''abc'', pos = 0, closed = False\<rparr>, rfc_start_byte = 0,
       rfc_size = 3, rfc_amount_read = 0, rfc_callbacks = [''p''],
       rfc_callbacks_enabled = True\<rparr>,
      []) \<and>
   snd (snd (rfc_seek
     \<lparr>rfc_fileobj = \<lparr>content = ''abc'', pos = 0, closed = False\<rparr>, rfc_start_byte = 0,
      rfc_size = 3, rfc_amount_read = 0, rfc_callbacks = [''p''],
      rfc_callbacks_enabled = True\<rparr> 0)) \<noteq> [(''p'', 0 - 0)]"
  by (simp add: chunk_eval)

section \<open>The window of a chunk\<close>

lemma rfc_read_inv:
  assumes "chunk_inv c" "within_window (rfc_size c) (Read amount)"
  shows "chunk_inv (fst (snd (rfc_read c amount))) \<and> same_window c (fst (snd (rfc_read c amount)))"
proof (cases amount)
  case None
  then show ?thesis using assms
    by (auto simp: rfc_read_def chunk_inv_def same_window_def file_read_def Let_def
        split: if_splits)
next
  case (Some a)
  then show ?thesis using assms
    by (auto simp: rfc_read_def chunk_inv_def same_window_def file_read_def Let_def min_def
        split: if_splits)
qed

lemma rfc_seek_inv:
  assumes "chunk_inv c" "within_window (rfc_size c) (Seek offset)"
  shows "chunk_inv (fst (snd (rfc_seek c offset))) \<and> same_window c (fst (snd (rfc_seek c offset)))"
  using assms
  by (auto simp: rfc_seek_def chunk_inv_def same_window_def file_seek_def split: if_splits)

lemma rfc_perform_inv:
  assumes "chunk_inv c" "within_window (rfc_size c) x"
  shows "chunk_inv (fst (rfc_perform c x)) \<and> same_window c (fst (rfc_perform c x))"
proof (cases x)
  case (Read amount)
  then show ?thesis using assms rfc_read_inv[of c amount] by simp
next
  case (Seek offset)
  then show ?thesis using assms rfc_seek_inv[of c offset] by simp
qed (use assms in \<open>auto simp: chunk_inv_def same_window_def enable_callback_def
      disable_callback_def rfc_close_def file_close_def\<close>)

lemma rfc_run_inv:
  "chunk_inv c \<Longrightarrow> list_all (within_window (rfc_size c)) xs \<Longrightarrow>
     chunk_inv (fst (rfc_run c xs)) \<and> same_window c (fst (rfc_run c xs))"
proof (induction xs arbitrary: c)
  case Nil
  then show ?case by (simp add: same_window_def)
next
  case (Cons x xs)
  let ?c = "fst (rfc_perform c x)"
  have p: "chunk_inv ?c" "same_window c ?c"
    using rfc_perform_inv[of c x] Cons.prems by simp_all
  then have "chunk_inv (fst (rfc_run ?c xs)) \<and> same_window ?c (fst (rfc_run ?c xs))"
    using Cons.IH[of ?c] Cons.prems by (simp add: same_window_def)
  then show ?case using p by (simp add: case_prod_beta Let_def same_window_def)
qed

lemma ReadFileChunk_inv:
  assumes "ReadFileChunk f chunk_size (st_size f) callbacks enable_callbacks = Inr c"
      and "0 \<le> chunk_size" and "int (pos f) \<le> st_size f"
  shows "chunk_inv c \<and> rfc_fileobj c = f \<and> rfc_start_byte c = int (pos f) \<and>
         rfc_size c = min chunk_size (st_size f - int (pos f)) \<and> \<not> closed f"
  using assms
  by (auto simp: ReadFileChunk_def file_tell_def calculate_file_size_def chunk_inv_def
      st_size_def split: if_splits)

lemma rfc_read_result:
  assumes "chunk_inv c" "\<not> closed (rfc_fileobj c)"
      and "m = (case amount of None \<Rightarrow> rfc_size c - rfc_amount_read c
                | Some a \<Rightarrow> min a (rfc_size c - rfc_amount_read c))"
      and "within_window (rfc_size c) (Read amount)"
  shows "fst (rfc_read c amount) =
           Inr (take (nat m) (drop (nat (rfc_start_byte c + rfc_amount_read c))
                                     (content (rfc_fileobj c)))) \<and>
         int (length (take (nat m) (drop (nat (rfc_start_byte c + rfc_amount_read c))
                                     (content (rfc_fileobj c))))) = m"
proof -
  have m: "0 \<le> m" "m \<le> rfc_size c - rfc_amount_read c"
    using assms by (auto simp: chunk_inv_def split: option.splits)
  have p: "pos (rfc_fileobj c) = nat (rfc_start_byte c + rfc_amount_read c)"
    using assms(1) unfolding chunk_inv_def by linarith
  have "int (pos (rfc_fileobj c)) + m \<le> int (length (content (rfc_fileobj c)))"
    using assms(1) m by (simp add: chunk_inv_def)
  then have l: "nat m \<le> length (content (rfc_fileobj c)) - pos (rfc_fileobj c)" using m by linarith
  have "fst (rfc_read c amount) = Inr (take (nat m) (drop (pos (rfc_fileobj c)) (content (rfc_fileobj c))))"
    using assms(2,3) m
    by (cases amount) (auto simp: rfc_read_def file_read_def Let_def min.commute)
  then show ?thesis using p l m by (simp add: min_def)
qed

text \<open>
  What holds of the window. Let a \<^verbatim>\<open>ReadFileChunk\<close> be built with a non-negative requested
  size over an open file, positioned at or before its end, whose true size is given as the
  full size. Its size is the minimum of the requested size and of what the file has from
  the position on, and \<^verbatim>\<open>__len__\<close> returns it. After any sequence of calls within the window
  (reads of no amount or of a non-negative one, seeks from 0 to the size), while the file
  is open: \<^verbatim>\<open>read()\<close> returns the size less the cursor bytes, \<^verbatim>\<open>read(a)\<close> with \<open>a \<ge> 0\<close>
  returns as many as the minimum of \<open>a\<close> and that, both taken from the file at the
  start byte plus the cursor; and with the cursor at the size they return no bytes and
  leave the cursor there.
\<close>

lemma chunk_window_reads:
  assumes "ReadFileChunk f chunk_size (st_size f) callbacks enable_callbacks = Inr c"
      and "0 \<le> chunk_size" and "int (pos f) \<le> st_size f"
      and "list_all (within_window (rfc_size c)) xs"
      and "c' = fst (rfc_run c xs)" and "\<not> closed (rfc_fileobj c')"
  shows "rfc_size c = min chunk_size (st_size f - int (pos f)) \<and>
         rfc_len c' = rfc_size c \<and>
         (\<exists>data. fst (rfc_read c' None) = Inr data \<and>
            int (length data) = rfc_size c - rfc_tell c' \<and>
            data = take (nat (rfc_size c - rfc_tell c'))
                     (drop (pos f + nat (rfc_tell c')) (content f))) \<and>
         (0 \<le> a \<longrightarrow>
            (\<exists>data. fst (rfc_read c' (Some a)) = Inr data \<and>
               int (length data) = min a (rfc_size c - rfc_tell c') \<and>
               data = take (nat (min a (rfc_size c - rfc_tell c')))
                        (drop (pos f + nat (rfc_tell c')) (content f)))) \<and>
         (rfc_tell c' = rfc_size c \<longrightarrow>
            fst (rfc_read c' None) = Inr [] \<and>
            (0 \<le> a \<longrightarrow> fst (rfc_read c' (Some a)) = Inr []) \<and>
            rfc_tell (fst (snd (rfc_read c' None))) = rfc_size c)"
proof -
  note c = ReadFileChunk_inv[OF assms(1,2,3)]
  have inv: "chunk_inv c'" and same: "same_window c c'"
    using rfc_run_inv[OF _ assms(4)] c assms(5) by simp_all
  have sz: "rfc_size c' = rfc_size c" and st: "rfc_start_byte c' = int (pos f)"
    and ct: "content (rfc_fileobj c') = content f"
    using same c by (simp_all add: same_window_def)
  have cur: "0 \<le> rfc_amount_read c'" using inv by (simp add: chunk_inv_def)
  have off: "nat (int (pos f) + rfc_amount_read c') = pos f + nat (rfc_amount_read c')"
    using cur by linarith
  have r1: "fst (rfc_read c' None) =
           Inr (take (nat (rfc_size c - rfc_amount_read c'))
              (drop (pos f + nat (rfc_amount_read c')) (content f))) \<and>
         int (length (take (nat (rfc_size c - rfc_amount_read c'))
              (drop (pos f + nat (rfc_amount_read c')) (content f)))) =
            rfc_size c - rfc_amount_read c'"
    using rfc_read_result[OF inv assms(6), of "rfc_size c - rfc_amount_read c'" None]
    by (simp add: sz st ct off)
  have r2: "0 \<le> a \<Longrightarrow> fst (rfc_read c' (Some a)) =
           Inr (take (nat (min a (rfc_size c - rfc_amount_read c')))
              (drop (pos f + nat (rfc_amount_read c')) (content f))) \<and>
         int (length (take (nat (min a (rfc_size c - rfc_amount_read c')))
              (drop (pos f + nat (rfc_amount_read c')) (content f)))) =
            min a (rfc_size c - rfc_amount_read c')"
    using rfc_read_result[OF inv assms(6), of "min a (rfc_size c - rfc_amount_read c')" "Some a"]
    by (simp add: sz st ct off)
  have r3: "rfc_amount_read (fst (snd (rfc_read c' None))) =
            rfc_amount_read c' + (rfc_size c - rfc_amount_read c')"
    using r1 assms(6)
    by (auto simp: rfc_read_def Let_def split: prod.splits sum.splits)
  show ?thesis using c r1 r2 r3 sz by (auto simp: rfc_len_def rfc_tell_def)
qed

text \<open>
  The example of a file of 40 bytes and a chunk of at most 100000 bytes at byte 36: its
  length is 4, \<^verbatim>\<open>read()\<close> returns the last 4 bytes and the next \<^verbatim>\<open>read()\<close> returns none.
\<close>

lemma chunk_window_reads_example:
  "from_filename [''foo'' \<mapsto> ''onetwothreefourfivesixseveneightnineten!''] ''foo'' 36 100000
     None True =
     Inr
       \<lparr>rfc_fileobj =
          \<lparr>content = ''onetwothreefourfivesixseveneightnineten!'', pos = 36, closed = False\<rparr>,
        rfc_start_byte = 36, rfc_size = 4, rfc_amount_read = 0, rfc_callbacks = [],
        rfc_callbacks_enabled = True\<rparr> \<and>
   ReadFileChunk
     \<lparr>content = ''onetwothreefourfivesixseveneightnineten!'', pos = 36, closed = False\<rparr>
     100000 40 None True =
     Inr
       \<lparr>rfc_fileobj =
          \<lparr>content = ''onetwothreefourfivesixseveneightnineten!'', pos = 36, closed = False\<rparr>,
        rfc_start_byte = 36, rfc_size = 4, rfc_amount_read = 0, rfc_callbacks = [],
        rfc_callbacks_enabled = True\<rparr> \<and>
   rfc_len
     \<lparr>rfc_fileobj =
        \<lparr>content = ''onetwothreefourfivesixseveneightnineten!'', pos = 36, closed = False\<rparr>,
      rfc_start_byte = 36, rfc_size = 4, rfc_amount_read = 0, rfc_callbacks = [],
      rfc_callbacks_enabled = True\<rparr> = 4 \<and>
   fst (rfc_read
     \<lparr>rfc_fileobj =
        \<lparr>content = ''onetwothreefourfivesixseveneightnineten!'', pos = 36, closed = False\<rparr>,
      rfc_start_byte = 36, rfc_size = 4, rfc_amount_read = 0, rfc_callbacks = [],
      rfc_callbacks_enabled = True\<rparr> None) = Inr ''ten!'' \<and>
   fst (rfc_read (fst (rfc_run
     \<lparr>rfc_fileobj =
        \<lparr>content = ''onetwothreefourfivesixseveneightnineten!'', pos = 36, closed = False\<rparr>,
      rfc_start_byte = 36, rfc_size = 4, rfc_amount_read = 0, rfc_callbacks = [],
      rfc_callbacks_enabled = True\<rparr> [Read None])) None) = Inr []"
  using chunk_window_reads [of
     "\<lparr>content = ''onetwothreefourfivesixseveneightnineten!'', pos = 36, closed = False\<rparr>"
     100000 None True
     "\<lparr>rfc_fileobj =
        \<lparr>content = ''onetwothreefourfivesixseveneightnineten!'', pos = 36, closed = False\<rparr>,
      rfc_start_byte = 36, rfc_size = 4, rfc_amount_read = 0, rfc_callbacks = [],
      rfc_callbacks_enabled = True\<rparr>" "[Read None]" _ 1]
  by (simp add: chunk_eval st_size_def from_filename_def open_rb_def)

text \<open>
  C6. The claim is that \<^verbatim>\<open>read(amount)\<close> returns the minimum of the amount and of what is
  left of the window, and that once the window is exhausted every read returns the empty
  byte string; the docstring of the constructor says the same (reading past the end of
  the chunk behaves like the end of the file). The code passes the minimum of what is
  left and the amount to the file, and for a file -1 means up to the end: on a chunk of
  size 4 at byte 3 of a file of 11 bytes, \<^verbatim>\<open>read()\<close> returns the 4 bytes of the window and
  \<^verbatim>\<open>read(-1)\<close> then returns the 4 bytes that follow the window.
\<close>

theorem read_minus_one_leaves_window:
  "ReadFileChunk \<lparr>content = ''onetwothree'', pos = 3, closed = False\<rparr> 4 11 None True =
     Inr
       \<lparr>rfc_fileobj = \<lparr>content = ''onetwothree'', pos = 3, closed = False\<rparr>,
        rfc_start_byte = 3, rfc_size = 4, rfc_amount_read = 0, rfc_callbacks = [],
        rfc_callbacks_enabled = True\<rparr> \<and>
   rfc_read
     \<lparr>rfc_fileobj = \<lparr>content = ''onetwothree'', pos = 3, closed = False\<rparr>,
      rfc_start_byte = 3, rfc_size = 4, rfc_amount_read = 0, rfc_callbacks = [],
      rfc_callbacks_enabled = True\<rparr> None =
     (Inr ''twot'',
      \<lparr>rfc_fileobj = \<lparr>content = ''onetwothree'', pos = 7, closed = False\<rparr>,
       rfc_start_byte = 3, rfc_size = 4, rfc_amount_read = 4, rfc_callbacks = [],
       rfc_callbacks_enabled = True\<rparr>, []) \<and>
   rfc_read
     \<lparr>rfc_fileobj = \<lparr>content = ''onetwothree'', pos = 7, closed = False\<rparr>,
      rfc_start_byte = 3, rfc_size = 4, rfc_amount_read = 4, rfc_callbacks = [],
      rfc_callbacks_enabled = True\<rparr> (Some (- 1)) =
     (Inr ''hree'',
      \<lparr>rfc_fileobj = \<lparr>content = ''onetwothree'', pos = 11, closed = False\<rparr>,
       rfc_start_byte = 3, rfc_size = 4, rfc_amount_read = 8, rfc_callbacks = [],
       rfc_callbacks_enabled = True\<rparr>, [])"
  by (simp add: chunk_eval)

section \<open>The cursor of a deferred file\<close>

lemma file_seek_pos:
  "file_seek f offset = (r, f') \<Longrightarrow> b \<le> int (pos f) \<Longrightarrow> b \<le> offset \<Longrightarrow> b \<le> int (pos f')"
  by (auto simp: file_seek_def split: if_splits)

lemma file_read_pos:
  "file_read f amount = (r, f') \<Longrightarrow> b \<le> int (pos f) \<Longrightarrow> b \<le> int (pos f')"
  by (auto simp: file_read_def Let_def split: if_splits)

lemma open_if_needed_fresh:
  assumes "dof_fileobj d = None" "open_if_needed fs d = (Inr f, d')"
  shows "dof_fileobj d' = Some f \<and> int (pos f) = dof_start_byte d \<and>
         dof_start_byte d' = dof_start_byte d \<and> \<not> closed f \<and>
         fs (dof_filename d) = Some (content f)"
  using assms
  by (auto simp: open_if_needed_def open_rb_def file_seek_def
      split: option.splits sum.splits prod.splits if_splits)

lemma open_if_needed_inv:
  assumes "handle_not_before d" "open_if_needed fs d = (r, d')"
  shows "handle_not_before d' \<and> dof_start_byte d' = dof_start_byte d \<and>
         (\<forall>f. r = Inr f \<longrightarrow> dof_fileobj d' = Some f)"
  using assms
  by (auto simp: open_if_needed_def open_rb_def file_seek_def handle_not_before_def
      split: option.splits sum.splits prod.splits if_splits)

lemma dof_read_inv:
  assumes "handle_not_before d"
  shows "handle_not_before (snd (dof_read fs d amount)) \<and>
         dof_start_byte (snd (dof_read fs d amount)) = dof_start_byte d"
proof -
  obtain r d' where o: "open_if_needed fs d = (r, d')" by (cases "open_if_needed fs d")
  note i = open_if_needed_inv[OF assms o]
  show ?thesis
  proof (cases r)
    case (Inr f)
    obtain r' f' where rd: "file_read f amount = (r', f')" by (cases "file_read f amount")
    have "dof_start_byte d \<le> int (pos f)" using i Inr
      by (auto simp: handle_not_before_def)
    then have "dof_start_byte d \<le> int (pos f')" using file_read_pos[OF rd] by simp
    then show ?thesis using o Inr rd i
      by (simp add: dof_read_def handle_not_before_def)
  qed (use o i in \<open>simp_all add: dof_read_def\<close>)
qed

lemma dof_seek_inv:
  assumes "handle_not_before d" "dof_start_byte d \<le> offset"
  shows "handle_not_before (snd (dof_seek fs d offset)) \<and>
         dof_start_byte (snd (dof_seek fs d offset)) = dof_start_byte d"
proof -
  obtain r d' where o: "open_if_needed fs d = (r, d')" by (cases "open_if_needed fs d")
  note i = open_if_needed_inv[OF assms(1) o]
  show ?thesis
  proof (cases r)
    case (Inr f)
    obtain r' f' where sk: "file_seek f offset = (r', f')" by (cases "file_seek f offset")
    have "dof_start_byte d \<le> int (pos f)" using i Inr
      by (auto simp: handle_not_before_def)
    then have "dof_start_byte d \<le> int (pos f')" using file_seek_pos[OF sk _ assms(2)] by simp
    then show ?thesis using o Inr sk i
      by (cases r') (simp_all add: dof_seek_def handle_not_before_def)
  qed (use o i in \<open>simp_all add: dof_seek_def\<close>)
qed

lemma dof_perform_inv:
  assumes "handle_not_before d" "not_before (dof_start_byte d) x"
  shows "handle_not_before (dof_perform fs d x) \<and>
         dof_start_byte (dof_perform fs d x) = dof_start_byte d"
proof (cases x)
  case (DRead amount)
  then show ?thesis using dof_read_inv[OF assms(1)] by simp
next
  case (DSeek offset)
  then show ?thesis using dof_seek_inv[OF assms(1)] assms(2) by simp
next
  case DTell
  then show ?thesis using assms(1) by (simp add: dof_tell_def split: option.splits)
next
  case DEnter
  obtain r d' where o: "open_if_needed fs d = (r, d')" by (cases "open_if_needed fs d")
  then show ?thesis using DEnter open_if_needed_inv[OF assms(1) o]
    by (cases r) (simp_all add: dof_enter_def)
next
  case DClose
  then show ?thesis using assms(1)
    by (auto simp: dof_close_def handle_not_before_def file_close_def split: option.splits)
next
  case DExit
  then show ?thesis using assms(1)
    by (auto simp: dof_exit_def dof_close_def handle_not_before_def file_close_def
        split: option.splits)
qed

lemma dof_run_inv:
  "handle_not_before d \<Longrightarrow> list_all (not_before (dof_start_byte d)) xs \<Longrightarrow>
     handle_not_before (dof_run fs d xs) \<and> dof_start_byte (dof_run fs d xs) = dof_start_byte d"
proof (induction xs arbitrary: d)
  case Nil
  then show ?case by simp
next
  case (Cons x xs)
  then have "handle_not_before (dof_perform fs d x) \<and>
             dof_start_byte (dof_perform fs d x) = dof_start_byte d"
    using dof_perform_inv[of d x fs] by simp
  then show ?case using Cons.IH[of "dof_perform fs d x"] Cons.prems by simp
qed

lemma open_if_needed_opens:
  assumes "dof_fileobj d = None" "fs (dof_filename d) = Some b" "0 \<le> dof_start_byte d"
  shows "open_if_needed fs d =
           (Inr \<lparr>content = b, pos = nat (dof_start_byte d), closed = False\<rparr>,
            d\<lparr>dof_fileobj := Some \<lparr>content = b, pos = nat (dof_start_byte d), closed = False\<rparr>\<rparr>)"
  using assms by (simp add: open_if_needed_def open_rb_def file_seek_def)

lemma dof_enter_opens:
  assumes "dof_fileobj d = None" "fs (dof_filename d) = Some b" "0 \<le> dof_start_byte d"
  shows "dof_enter fs d =
           (Inr (),
            d\<lparr>dof_fileobj := Some \<lparr>content = b, pos = nat (dof_start_byte d), closed = False\<rparr>\<rparr>)"
  by (simp add: dof_enter_def open_if_needed_opens[of d fs b, OF assms])

lemma dof_read_opens:
  assumes "dof_fileobj d = None" "fs (dof_filename d) = Some b" "0 \<le> dof_start_byte d"
  shows "dof_read fs d amount =
           (fst (file_read \<lparr>content = b, pos = nat (dof_start_byte d), closed = False\<rparr> amount),
            d\<lparr>dof_fileobj :=
                Some (snd (file_read \<lparr>content = b, pos = nat (dof_start_byte d), closed = False\<rparr>
                             amount))\<rparr>)"
  by (simp add: dof_read_def open_if_needed_opens[of d fs b, OF assms] case_prod_beta)

lemma dof_read_opens_bytes:
  assumes "dof_fileobj d = None" "fs (dof_filename d) = Some b" "0 \<le> dof_start_byte d"
      and "0 \<le> a"
  shows "fst (dof_read fs d (Some a)) = Inr (take (nat a) (drop (nat (dof_start_byte d)) b))"
  using assms(4) by (simp add: dof_read_opens[of d fs b, OF assms(1,2,3)] file_read_def)

lemma dof_seek_opens:
  assumes "dof_fileobj d = None" "fs (dof_filename d) = Some b" "0 \<le> dof_start_byte d"
      and "0 \<le> offset"
  shows "dof_seek fs d offset =
           (Inr (), d\<lparr>dof_fileobj := Some \<lparr>content = b, pos = nat offset, closed = False\<rparr>\<rparr>)"
  using assms(4) by (simp add: dof_seek_def open_if_needed_opens[of d fs b, OF assms(1,2,3)] file_seek_def)

lemma dof_perform_frame:
  "dof_filename (dof_perform fs d x) = dof_filename d \<and>
   dof_start_byte (dof_perform fs d x) = dof_start_byte d"
  by (cases x)
     (auto simp: dof_read_def dof_seek_def dof_tell_def dof_enter_def dof_exit_def dof_close_def
        open_if_needed_def split: option.splits sum.splits prod.splits)

lemma file_read_content: "content (snd (file_read f amount)) = content f"
  by (simp add: file_read_def Let_def)

lemma file_seek_content: "content (snd (file_seek f offset)) = content f"
  by (simp add: file_seek_def)

lemma dof_perform_present:
  assumes "dof_fileobj d = Some h" "content h = b"
  shows "\<exists>h'. dof_fileobj (dof_perform fs d x) = Some h' \<and> content h' = b"
proof (cases x)
  case (DRead amount)
  then show ?thesis using assms file_read_content[of h amount]
    by (auto simp: dof_read_def open_if_needed_def split: prod.splits)
next
  case (DSeek offset)
  then show ?thesis using assms file_seek_content[of h offset]
    by (auto simp: dof_seek_def open_if_needed_def split: prod.splits sum.splits)
next
  case DTell
  then show ?thesis using assms by (simp add: dof_tell_def)
next
  case DEnter
  then show ?thesis using assms by (simp add: dof_enter_def open_if_needed_def)
next
  case DClose
  then show ?thesis using assms by (simp add: dof_close_def file_close_def)
next
  case DExit
  then show ?thesis using assms by (simp add: dof_exit_def dof_close_def file_close_def)
qed

lemma dof_run_present:
  "dof_fileobj d = Some h \<Longrightarrow> content h = b \<Longrightarrow>
     \<exists>h'. dof_fileobj (dof_run fs d xs) = Some h' \<and> content h' = b"
proof (induction xs arbitrary: d h)
  case Nil
  then show ?case by simp
next
  case (Cons x xs)
  obtain h' where "dof_fileobj (dof_perform fs d x) = Some h'" "content h' = b"
    using dof_perform_present[OF Cons.prems] by blast
  then show ?case using Cons.IH by simp
qed

lemma dof_perform_opens:
  assumes "dof_fileobj d = None" "fs (dof_filename d) = Some b" "0 \<le> dof_start_byte d"
      and "opens x"
  shows "\<exists>h. dof_fileobj (dof_perform fs d x) = Some h \<and> content h = b"
proof (cases x)
  case (DRead amount)
  then show ?thesis
    by (simp add: dof_read_opens[of d fs b, OF assms(1,2,3)] file_read_content)
next
  case (DSeek offset)
  then show ?thesis
    using file_seek_content[of "\<lparr>content = b, pos = nat (dof_start_byte d), closed = False\<rparr>" offset]
    by (auto simp: dof_seek_def open_if_needed_opens[of d fs b, OF assms(1,2,3)]
        split: prod.splits sum.splits)
next
  case DEnter
  then show ?thesis by (simp add: dof_enter_opens[of d fs b, OF assms(1,2,3)])
qed (use assms(4) in simp_all)

lemma dof_perform_absent:
  assumes "dof_fileobj d = None" "\<not> opens x"
  shows "dof_fileobj (dof_perform fs d x) = None"
  using assms by (cases x) (simp_all add: dof_tell_def dof_close_def dof_exit_def)

lemma dof_run_opens:
  "dof_fileobj d = None \<Longrightarrow> fs (dof_filename d) = Some b \<Longrightarrow> 0 \<le> dof_start_byte d \<Longrightarrow>
     list_ex opens xs \<Longrightarrow> \<exists>h. dof_fileobj (dof_run fs d xs) = Some h \<and> content h = b"
proof (induction xs arbitrary: d)
  case Nil
  then show ?case by simp
next
  case (Cons x xs)
  show ?case
  proof (cases "opens x")
    case True
    obtain h where "dof_fileobj (dof_perform fs d x) = Some h" "content h = b"
      using dof_perform_opens[of d fs b x, OF Cons.prems(1,2,3) True] by blast
    then show ?thesis using dof_run_present[of "dof_perform fs d x" h b fs xs] by simp
  next
    case False
    have "dof_fileobj (dof_perform fs d x) = None"
      using Cons.prems(1) False by (rule dof_perform_absent)
    moreover have "fs (dof_filename (dof_perform fs d x)) = Some b"
        "0 \<le> dof_start_byte (dof_perform fs d x)"
      using Cons.prems(2,3) dof_perform_frame[of fs d x] by simp_all
    moreover have "list_ex opens xs" using Cons.prems(4) False by simp
    ultimately show ?thesis using Cons.IH[of "dof_perform fs d x"] by simp
  qed
qed

text \<open>
  C8, as amended. While a \<^verbatim>\<open>DeferredOpenFile\<close> has no handle, \<^verbatim>\<open>tell()\<close> returns the start
  byte and leaves it without one. On a \<^verbatim>\<open>DeferredOpenFile\<close> without a handle, whose file
  exists and whose start byte is not negative, \<^verbatim>\<open>__enter__\<close> opens the file and leaves the
  handle at the start byte; \<^verbatim>\<open>read\<close> opens it and reads from the start byte on; \<^verbatim>\<open>seek\<close>
  opens it and leaves the handle at the offset given. After any sequence of calls on a
  new \<^verbatim>\<open>DeferredOpenFile\<close> in which no \<^verbatim>\<open>seek\<close> goes to an offset before the start byte,
  the handle, if there is one, is at the start byte or beyond; and there is one, on the
  contents of the file, as soon as the sequence has a \<^verbatim>\<open>read\<close>, a \<^verbatim>\<open>seek\<close> or an
  \<^verbatim>\<open>__enter__\<close>.
\<close>

theorem deferred_cursor_not_before_start:
  "(dof_fileobj d = None \<longrightarrow> dof_tell d = (Inr (dof_start_byte d), d)) \<and>
   (dof_fileobj d = None \<and> open_if_needed fs d = (Inr f, d') \<longrightarrow>
      dof_fileobj d' = Some f \<and> int (pos f) = dof_start_byte d) \<and>
   (dof_fileobj d = None \<and> fs (dof_filename d) = Some b \<and> 0 \<le> dof_start_byte d \<longrightarrow>
      dof_enter fs d =
        (Inr (),
         d\<lparr>dof_fileobj :=
             Some \<lparr>content = b, pos = nat (dof_start_byte d), closed = False\<rparr>\<rparr>) \<and>
      dof_read fs d amount =
        (fst (file_read \<lparr>content = b, pos = nat (dof_start_byte d), closed = False\<rparr> amount),
         d\<lparr>dof_fileobj :=
             Some (snd (file_read
                          \<lparr>content = b, pos = nat (dof_start_byte d), closed = False\<rparr>
                          amount))\<rparr>) \<and>
      (0 \<le> a \<longrightarrow>
         fst (dof_read fs d (Some a)) =
           Inr (take (nat a) (drop (nat (dof_start_byte d)) b))) \<and>
      (0 \<le> offset \<longrightarrow>
         dof_seek fs d offset =
           (Inr (),
            d\<lparr>dof_fileobj := Some \<lparr>content = b, pos = nat offset, closed = False\<rparr>\<rparr>))) \<and>
   (list_all (not_before start_byte) xs \<and>
    dof_fileobj (dof_run fs (DeferredOpenFile filename start_byte) xs) = Some h \<longrightarrow>
      start_byte \<le> int (pos h)) \<and>
   (fs filename = Some b \<and> 0 \<le> start_byte \<and> list_all (not_before start_byte) xs \<and>
    list_ex opens xs \<longrightarrow>
      (\<exists>h'. dof_fileobj (dof_run fs (DeferredOpenFile filename start_byte) xs) = Some h' \<and>
            content h' = b \<and> start_byte \<le> int (pos h')))"
proof -
  have c1: "dof_fileobj d = None \<longrightarrow> dof_tell d = (Inr (dof_start_byte d), d)"
    by (simp add: dof_tell_def)
  have c2: "dof_fileobj d = None \<and> open_if_needed fs d = (Inr f, d') \<longrightarrow>
      dof_fileobj d' = Some f \<and> int (pos f) = dof_start_byte d"
    using open_if_needed_fresh[of d fs f d'] by simp
  have c3: "dof_fileobj d = None \<and> fs (dof_filename d) = Some b \<and> 0 \<le> dof_start_byte d \<longrightarrow>
      dof_enter fs d =
        (Inr (),
         d\<lparr>dof_fileobj :=
             Some \<lparr>content = b, pos = nat (dof_start_byte d), closed = False\<rparr>\<rparr>) \<and>
      dof_read fs d amount =
        (fst (file_read \<lparr>content = b, pos = nat (dof_start_byte d), closed = False\<rparr> amount),
         d\<lparr>dof_fileobj :=
             Some (snd (file_read
                          \<lparr>content = b, pos = nat (dof_start_byte d), closed = False\<rparr>
                          amount))\<rparr>) \<and>
      (0 \<le> a \<longrightarrow>
         fst (dof_read fs d (Some a)) =
           Inr (take (nat a) (drop (nat (dof_start_byte d)) b))) \<and>
      (0 \<le> offset \<longrightarrow>
         dof_seek fs d offset =
           (Inr (),
            d\<lparr>dof_fileobj := Some \<lparr>content = b, pos = nat offset, closed = False\<rparr>\<rparr>))"
    using dof_enter_opens[of d fs b] dof_read_opens[of d fs b amount]
      dof_read_opens_bytes[of d fs b a] dof_seek_opens[of d fs b offset]
    by simp
  have init: "handle_not_before (DeferredOpenFile filename start_byte)"
    by (simp add: handle_not_before_def DeferredOpenFile_def)
  have inv: "list_all (not_before start_byte) xs \<Longrightarrow>
      handle_not_before (dof_run fs (DeferredOpenFile filename start_byte) xs) \<and>
      dof_start_byte (dof_run fs (DeferredOpenFile filename start_byte) xs) = start_byte"
    using dof_run_inv[of "DeferredOpenFile filename start_byte" xs fs] init
    by (simp add: DeferredOpenFile_def)
  have c4: "list_all (not_before start_byte) xs \<and>
    dof_fileobj (dof_run fs (DeferredOpenFile filename start_byte) xs) = Some h \<longrightarrow>
      start_byte \<le> int (pos h)"
    using inv by (auto simp: handle_not_before_def)
  have c5: "fs filename = Some b \<and> 0 \<le> start_byte \<and> list_all (not_before start_byte) xs \<and>
    list_ex opens xs \<longrightarrow>
      (\<exists>h'. dof_fileobj (dof_run fs (DeferredOpenFile filename start_byte) xs) = Some h' \<and>
            content h' = b \<and> start_byte \<le> int (pos h'))"
  proof
    assume a: "fs filename = Some b \<and> 0 \<le> start_byte \<and>
      list_all (not_before start_byte) xs \<and> list_ex opens xs"
    then obtain h' where h: "dof_fileobj (dof_run fs (DeferredOpenFile filename start_byte) xs) = Some h'"
        "content h' = b"
      using dof_run_opens[of "DeferredOpenFile filename start_byte" fs b xs]
      by (auto simp: DeferredOpenFile_def)
    moreover have "start_byte \<le> int (pos h')" using inv a h(1)
      by (auto simp: handle_not_before_def)
    ultimately show "\<exists>h'. dof_fileobj (dof_run fs (DeferredOpenFile filename start_byte) xs) = Some h' \<and>
            content h' = b \<and> start_byte \<le> int (pos h')"
      by simp
  qed
  show ?thesis by (intro conjI c1 c2 c3 c4 c5)
qed

theorem deferred_cursor_not_before_start_witness:
  "dof_fileobj (DeferredOpenFile ''foo'' 5) = None \<and>
   dof_tell (DeferredOpenFile ''foo'' 5) = (Inr 5, DeferredOpenFile ''foo'' 5) \<and>
   open_if_needed [''foo'' \<mapsto> ''my contents''] (DeferredOpenFile ''foo'' 5) =
     (Inr \<lparr>content = ''my contents'', pos = 5, closed = False\<rparr>,
      \<lparr>dof_filename = ''foo'',
       dof_fileobj = Some \<lparr>content = ''my contents'', pos = 5, closed = False\<rparr>,
       dof_start_byte = 5\<rparr>) \<and>
   dof_enter [''foo'' \<mapsto> ''my contents''] (DeferredOpenFile ''foo'' 5) =
     (Inr (),
      \<lparr>dof_filename = ''foo'',
       dof_fileobj = Some \<lparr>content = ''my contents'', pos = 5, closed = False\<rparr>,
       dof_start_byte = 5\<rparr>) \<and>
   dof_read [''foo'' \<mapsto> ''my contents''] (DeferredOpenFile ''foo'' 5) (Some 2) =
     (Inr ''nt'',
      \<lparr>dof_filename = ''foo'',
       dof_fileobj = Some \<lparr>content = ''my contents'', pos = 7, closed = False\<rparr>,
       dof_start_byte = 5\<rparr>) \<and>
   dof_seek [''foo'' \<mapsto> ''my contents''] (DeferredOpenFile ''foo'' 5) 8 =
     (Inr (),
      \<lparr>dof_filename = ''foo'',
       dof_fileobj = Some \<lparr>content = ''my contents'', pos = 8, closed = False\<rparr>,
       dof_start_byte = 5\<rparr>) \<and>
   list_all (not_before 5) [DTell, DEnter, DRead (Some 2), DSeek 9, DRead None, DTell] \<and>
   list_ex opens [DTell, DEnter, DRead (Some 2), DSeek 9, DRead None, DTell] \<and>
   dof_fileobj (dof_run [''foo'' \<mapsto> ''my contents''] (DeferredOpenFile ''foo'' 5)
                  [DTell, DEnter, DRead (Some 2), DSeek 9, DRead None, DTell]) =
     Some \<lparr>content = ''my contents'', pos = 11, closed = False\<rparr> \<and>
   (5::int) \<le> int (pos \<lparr>content = ''my contents'', pos = 11, closed = False\<rparr>)"
  using deferred_cursor_not_before_start [of
      "DeferredOpenFile ''foo'' 5" "[''foo'' \<mapsto> ''my contents'']"
      "\<lparr>content = ''my contents'', pos = 5, closed = False\<rparr>"
      "\<lparr>dof_filename = ''foo'',
        dof_fileobj = Some \<lparr>content = ''my contents'', pos = 5, closed = False\<rparr>,
        dof_start_byte = 5\<rparr>"
      "''my contents''" "Some 2" 2 8
      5 "[DTell, DEnter, DRead (Some 2), DSeek 9, DRead None, DTell]" "''foo''"
      "\<lparr>content = ''my contents'', pos = 11, closed = False\<rparr>"]
  by (simp add: dof_eval)

text \<open>
  As stated, at every point after the opening, C8 fails: \<^verbatim>\<open>seek\<close> passes its offset to the
  file as it is, so with a start byte of 5 \<^verbatim>\<open>seek(2)\<close> opens the file, moves to 5 and then
  to 2.
\<close>

theorem deferred_cursor_not_before_start_counterexample:
  "dof_fileobj (dof_run [''foo'' \<mapsto> ''my contents''] (DeferredOpenFile ''foo'' 5) [DSeek 2]) =
     Some \<lparr>content = ''my contents'', pos = 2, closed = False\<rparr> \<and>
   \<not> (5::int) \<le> int (pos \<lparr>content = ''my contents'', pos = 2, closed = False\<rparr>)"
  by (simp add: dof_eval)

end
